theory Spec2Isabelle
  imports Main "HOL-Library.AList"
begin

section \<open>Host objects of src/src/stylesheets.ts\<close>

text \<open>
  A \<open>CSSStyleDeclaration\<close> is read by the code through three accessors: \<open>style[i]\<close>
  (the name of the i-th declared property), \<open>style[name]\<close> and
  \<open>style.getPropertyPriority(name)\<close> (the string \<open>"important"\<close> or the empty string). It
  is modelled as the list of its declarations in index order. \<open>getPropertyPriority\<close>
  looks the name up in that list. \<open>style[name]\<close> reads a named attribute of the object:
  the object has one for each declared standard property, holding its value text, and
  none for a custom property (a name that starts with two hyphens), which the object
  lists under \<open>style[i]\<close> all the same; there \<open>style[name]\<close> is \<open>undefined\<close>. Strings
  are lists of characters; positions count characters.
\<close>

record cssDeclaration =
  propertyName :: string
  propertyValue :: string
  priority :: string

type_synonym CSSStyleDeclaration = "cssDeclaration list"

definition findDeclaration :: "CSSStyleDeclaration \<Rightarrow> string \<Rightarrow> cssDeclaration option" where
  "findDeclaration style name = find (\<lambda>d. propertyName d = name) style"

definition item :: "CSSStyleDeclaration \<Rightarrow> nat \<Rightarrow> string" where
  \<comment> \<open>\<open>style[i]\<close>, read only for \<open>i < style.length\<close>.\<close>
  "item style i = propertyName (style ! i)"

definition getPropertyPriority :: "CSSStyleDeclaration \<Rightarrow> string \<Rightarrow> string" where
  "getPropertyPriority style name =
     (case findDeclaration style name of Some d \<Rightarrow> priority d | None \<Rightarrow> [])"

definition isCustomProperty :: "string \<Rightarrow> bool" where
  "isCustomProperty name \<longleftrightarrow> take 2 name = ''--''"

definition namedValue :: "CSSStyleDeclaration \<Rightarrow> string \<Rightarrow> string" where
  \<comment> \<open>\<open>style[name] + ...\<close>: a custom property, like a property that is not declared,
      reads \<open>undefined\<close>, which the concatenation turns into the text "undefined".\<close>
  "namedValue style name =
     (if isCustomProperty name then ''undefined''
      else
        (case findDeclaration style name of
           Some d \<Rightarrow> propertyValue d
         | None \<Rightarrow> ''undefined''))"

section \<open>The cascade resolver: getAppliedPropertiesForStyles\<close>

text \<open>
  The object \<open>properties\<close> is an insertion-ordered association list (absent while it is
  still \<open>null\<close>), the \<open>Set\<close> \<open>important\<close> a set of property names. A key is a CSS
  property name, so \<open>properties[name] === undefined\<close> holds exactly when the key has not
  been written: no member inherited from \<open>Object.prototype\<close> bears such a name.
\<close>

type_synonym properties = "(string \<times> string) list"

type_synonym resolverState = "properties option \<times> string set"

definition importantSuffix :: "bool \<Rightarrow> string" where
  "importantSuffix isImportant = (if isImportant then '' !important'' else [])"

definition readDeclaration :: "CSSStyleDeclaration \<Rightarrow> nat \<Rightarrow> string \<times> bool \<times> string" where
  \<comment> \<open>The three \<open>const\<close> lines of the inner loop's body, at index \<open>i\<close>:
      \<open>name\<close>, \<open>isImportant\<close> and \<open>value\<close>.\<close>
  "readDeclaration style i =
     (let name = item style i;
          isImportant = (getPropertyPriority style name = ''important'');
          val = namedValue style name @ importantSuffix isImportant
      in (name, isImportant, val))"

definition writeProperty :: "resolverState \<Rightarrow> string \<times> bool \<times> string \<Rightarrow> resolverState" where
  \<comment> \<open>The rest of the body: the two \<open>if\<close> statements on \<open>properties\<close> and \<open>important\<close>.\<close>
  "writeProperty st d =
     (case d of (name, isImportant, val) \<Rightarrow>
        ((case fst st of
            Some props \<Rightarrow>
              if map_of props name = None \<or> (isImportant \<and> name \<notin> snd st)
              then Some (AList.update name val props)
              else Some props
          | None \<Rightarrow> Some [(name, val)]),
         (if isImportant then insert name (snd st) else snd st)))"

definition applyStyle :: "resolverState \<Rightarrow> CSSStyleDeclaration \<Rightarrow> resolverState" where
  \<comment> \<open>The inner loop: \<open>for (let i = 0, len = style.length; i < len; i++)\<close>.\<close>
  "applyStyle st style =
     foldl (\<lambda>st i. writeProperty st (readDeclaration style i)) st [0..<length style]"

definition resolveFrom :: "resolverState \<Rightarrow> CSSStyleDeclaration list \<Rightarrow> resolverState" where
  \<comment> \<open>The outer loop: \<open>for (const style of styles)\<close>.\<close>
  "resolveFrom st styles = foldl applyStyle st styles"

definition getAppliedPropertiesForStyles :: "CSSStyleDeclaration list \<Rightarrow> properties option" where
  "getAppliedPropertiesForStyles styles = fst (resolveFrom (None, {}) styles)"

section \<open>Rule collection: getStyleRulesFromSheet and getDocumentStyleRules\<close>

text \<open>
  A \<open>CSSRule\<close> carries a numeric \<open>type\<close>; the code tests it against 1 (style rule),
  4 (media rule) and 12 (supports rule). Every other kind of rule is a \<open>CSSOtherRule\<close>
  with the \<open>type\<close> constant of its kind; it may hold nested rules of its own (a keyframes
  rule does). \<open>ruleStyle\<close> is the rule's \<open>style\<close> property.
\<close>

datatype otherKind =
  CHARSET_RULE | IMPORT_RULE | FONT_FACE_RULE | PAGE_RULE | KEYFRAMES_RULE | KEYFRAME_RULE
  | NAMESPACE_RULE | COUNTER_STYLE_RULE | FONT_FEATURE_VALUES_RULE

fun otherType :: "otherKind \<Rightarrow> nat" where
  "otherType CHARSET_RULE = 2"
| "otherType IMPORT_RULE = 3"
| "otherType FONT_FACE_RULE = 5"
| "otherType PAGE_RULE = 6"
| "otherType KEYFRAMES_RULE = 7"
| "otherType KEYFRAME_RULE = 8"
| "otherType NAMESPACE_RULE = 10"
| "otherType COUNTER_STYLE_RULE = 11"
| "otherType FONT_FEATURE_VALUES_RULE = 14"

datatype cssRule =
  CSSStyleRule (selectorText: string) (ruleStyle: CSSStyleDeclaration)
  | CSSMediaRule (mediaText: string) (cssRules: "cssRule list")
  | CSSSupportsRule (conditionText: string) (cssRules: "cssRule list")
  | CSSOtherRule (kind: otherKind) (cssRules: "cssRule list")

fun ruleType :: "cssRule \<Rightarrow> nat" where
  "ruleType (CSSStyleRule s d) = 1"
| "ruleType (CSSMediaRule m rs) = 4"
| "ruleType (CSSSupportsRule c rs) = 12"
| "ruleType (CSSOtherRule k rs) = otherType k"

definition isStyleRule :: "cssRule \<Rightarrow> bool" where
  "isStyleRule rule \<longleftrightarrow> ruleType rule = 1"

definition isMediaRule :: "cssRule \<Rightarrow> bool" where
  "isMediaRule rule \<longleftrightarrow> ruleType rule = 4"

definition isSupportsRule :: "cssRule \<Rightarrow> bool" where
  "isSupportsRule rule \<longleftrightarrow> ruleType rule = 12"

text \<open>
  The window: \<open>matchMedia\<close> may be missing (the code tests for it), and when present
  \<open>matchMedia(text).matches\<close> is a truth value; \<open>supports\<close> is \<open>CSS.supports\<close>.
\<close>

record window =
  matchMedia :: "(string \<Rightarrow> bool) option"
  supports :: "string \<Rightarrow> bool"

lemma otherType_not_group: "otherType k \<noteq> 1 \<and> otherType k \<noteq> 4 \<and> otherType k \<noteq> 12"
  by (cases k) simp_all

lemma nested_rule_smaller:
  assumes "isMediaRule rule \<or> isSupportsRule rule" and "rule \<in> set curRules"
  shows "size_list size (cssRules rule) < size_list size curRules"
proof -
  from assms(1) have "size_list size (cssRules rule) < size rule"
    using otherType_not_group by (cases rule) (auto simp add: isMediaRule_def isSupportsRule_def)
  moreover from assms(2) have "size rule \<le> size_list size curRules"
    by (simp add: size_list_estimation')
  ultimately show ?thesis by simp
qed

text \<open>
  \<open>getStyleRulesFromSheet\<close> takes the \<open>cssRules\<close> of the sheet or group. Its loop runs
  from the last rule to the first and pushes onto \<open>styleRules\<close>: the rules are visited in
  reverse, and what each contributes is appended.
\<close>

function getStyleRulesFromSheet :: "cssRule list \<Rightarrow> window \<Rightarrow> cssRule list" where
  "getStyleRulesFromSheet curRules window =
     concat (map
       (\<lambda>rule.
          if isStyleRule rule then [rule]
          else if isMediaRule rule \<and> matchMedia window \<noteq> None then
            (if the (matchMedia window) (mediaText rule)
             then getStyleRulesFromSheet (cssRules rule) window else [])
          else if isSupportsRule rule then
            (if supports window (conditionText rule)
             then getStyleRulesFromSheet (cssRules rule) window else [])
          else [])
       (rev curRules))"
  by pat_completeness auto

termination
  by (relation "measure (\<lambda>(curRules, window). size_list size curRules)")
    (auto intro: nested_rule_smaller)

declare getStyleRulesFromSheet.simps [simp del]

definition flatten :: "'a list \<Rightarrow> 'a list \<Rightarrow> 'a list" where
  "flatten a b = a @ b"

text \<open>
  \<open>Array.prototype.sort\<close> is the host's: the language standard (from its 2019 edition)
  makes it stable, and ordered by a consistent comparator. It is modelled by a stable
  insertion sort; \<open>cmp a b \<le> 0\<close> keeps \<open>a\<close> in front of \<open>b\<close>.
\<close>

fun insertBy :: "('a \<Rightarrow> 'a \<Rightarrow> int) \<Rightarrow> 'a \<Rightarrow> 'a list \<Rightarrow> 'a list" where
  "insertBy cmp x [] = [x]"
| "insertBy cmp x (y # ys) = (if cmp x y \<le> 0 then x # y # ys else y # insertBy cmp x ys)"

definition arraySort :: "('a \<Rightarrow> 'a \<Rightarrow> int) \<Rightarrow> 'a list \<Rightarrow> 'a list" where
  "arraySort cmp xs = foldr (insertBy cmp) xs []"

record document =
  styleSheets :: "cssRule list list"
  defaultView :: window

text \<open>
  \<open>compare\<close> is imported from the package \<open>specificity\<close> and is a parameter here:
  \<open>compare a b\<close> is negative, zero or positive as the selector \<open>a\<close> is less, equally or
  more specific than \<open>b\<close>.
\<close>

definition getDocumentStyleRules :: "(string \<Rightarrow> string \<Rightarrow> int) \<Rightarrow> document \<Rightarrow> cssRule list" where
  "getDocumentStyleRules compare doc =
     arraySort (\<lambda>a b. compare (selectorText b) (selectorText a))
       (foldl flatten []
          (map (\<lambda>sheet. getStyleRulesFromSheet sheet (defaultView doc)) (styleSheets doc)))"

section \<open>Base styles: getElementStyles\<close>

text \<open>
  Of an element the code reads its inline \<open>style\<close> (here \<open>elementStyle\<close>) and calls
  \<open>el.matches(selector)\<close>.
\<close>

record element =
  elementStyle :: CSSStyleDeclaration
  matches :: "string \<Rightarrow> bool"

definition getElementStyles :: "element \<Rightarrow> cssRule list \<Rightarrow> properties option" where
  "getElementStyles el rules =
     getAppliedPropertiesForStyles
       ([elementStyle el] @
        map ruleStyle (filter (\<lambda>rule. matches el (selectorText rule)) rules))"

section \<open>The pseudo-element pattern and its match state\<close>

text \<open>
  \<open>pseudoElementRegex\<close> is one colon, an optional second colon, and one of ten names,
  matched without regard to letter case (flag \<open>i\<close>); the group captures the name as the
  selector spells it. The flag \<open>g\<close> makes \<open>exec\<close> start at the pattern's \<open>lastIndex\<close>,
  which it moves behind a match and resets to 0 when nothing matches any more.
  \<open>lastIndex\<close> is the only state of the module; it is passed in and returned.
  Only Latin letters are folded: under the flag \<open>i\<close> no character outside ASCII equals
  a letter of the pattern.
\<close>

definition pseudoElementNames :: "string list" where
  "pseudoElementNames =
     [''before'', ''after'', ''first-letter'', ''first-line'', ''selection'', ''backdrop'',
      ''placeholder'', ''marker'', ''spelling-error'', ''grammar-error'']"

definition canonicalize :: "char \<Rightarrow> char" where
  \<comment> \<open>Case folding of the flag \<open>i\<close>: a lower-case Latin letter becomes its capital.\<close>
  "canonicalize c =
     (let n = (of_char c :: nat) in if 97 \<le> n \<and> n \<le> 122 then char_of (n - 32) else c)"

fun matchLiteral :: "string \<Rightarrow> string \<Rightarrow> bool" where
  "matchLiteral [] input = True"
| "matchLiteral (p # ps) [] = False"
| "matchLiteral (p # ps) (c # cs) = (canonicalize p = canonicalize c \<and> matchLiteral ps cs)"

fun matchAlternatives :: "string list \<Rightarrow> string \<Rightarrow> string option" where
  \<comment> \<open>The group: the first alternative that matches, with the text it captures.\<close>
  "matchAlternatives [] input = None"
| "matchAlternatives (p # ps) input =
     (if matchLiteral p input then Some (take (length p) input)
      else matchAlternatives ps input)"

definition matchHere :: "string \<Rightarrow> (nat \<times> string) option" where
  \<comment> \<open>The pattern at the start of the input: the length of \<open>match[0]\<close>, and \<open>match[1]\<close>.
      The optional colon is tried first and given up when the names fail behind it.\<close>
  "matchHere input =
     (case input of
        [] \<Rightarrow> None
      | c # r \<Rightarrow>
          if c \<noteq> CHR '':'' then None
          else
            (case (case r of
                     [] \<Rightarrow> None
                   | c2 # r2 \<Rightarrow>
                       if c2 = CHR '':''
                       then map_option (\<lambda>g. (2 + length g, g)) (matchAlternatives pseudoElementNames r2)
                       else None) of
               Some m \<Rightarrow> Some m
             | None \<Rightarrow> map_option (\<lambda>g. (1 + length g, g)) (matchAlternatives pseudoElementNames r)))"

record regExpExecArray =
  index :: nat
  matchText :: string
  matchGroup :: string

function firstMatchFrom :: "string \<Rightarrow> nat \<Rightarrow> regExpExecArray option" where
  "firstMatchFrom input i =
     (if length input < i then None
      else
        (case matchHere (drop i input) of
           Some (len, g) \<Rightarrow> Some \<lparr>index = i, matchText = take len (drop i input), matchGroup = g\<rparr>
         | None \<Rightarrow> firstMatchFrom input (i + 1)))"
  by pat_completeness auto

termination
  by (relation "measure (\<lambda>(input, i). Suc (length input) - i)") auto

declare firstMatchFrom.simps [simp del]

definition exec :: "nat \<Rightarrow> string \<Rightarrow> regExpExecArray option \<times> nat" where
  \<comment> \<open>\<open>pseudoElementRegex.exec(input)\<close> at the given \<open>lastIndex\<close>: the match, and the
      new \<open>lastIndex\<close>.\<close>
  "exec lastIndex input =
     (case firstMatchFrom input lastIndex of
        None \<Rightarrow> (None, 0)
      | Some m \<Rightarrow> (Some m, index m + length (matchText m)))"

lemma matchHere_nonempty:
  assumes "matchHere input = Some (len, g)"
  shows "input \<noteq> [] \<and> 1 \<le> len"
  using assms
  by (auto simp add: matchHere_def split: list.splits if_splits option.splits)

lemma firstMatchFrom_bounds:
  "firstMatchFrom input i = Some m \<Longrightarrow>
     i \<le> index m \<and> index m < length input \<and> matchText m \<noteq> []"
proof (induction input i rule: firstMatchFrom.induct)
  case (1 input i)
  show ?case
  proof (cases "matchHere (drop i input)")
    case None
    with "1.prems" have inside: "\<not> length input < i" and "firstMatchFrom input (i + 1) = Some m"
      by (simp_all add: firstMatchFrom.simps [of input i] split: if_splits)
    with "1.IH" [OF inside None] show ?thesis by simp
  next
    case (Some found)
    obtain len g where found: "found = (len, g)" by (cases found) auto
    from matchHere_nonempty Some found have "drop i input \<noteq> []" and "1 \<le> len" by blast+
    with "1.prems" Some found show ?thesis
      by (auto simp add: firstMatchFrom.simps [of input i] split: if_splits)
  qed
qed

lemma exec_advances:
  assumes "exec lastIndex input = (Some m, lastIndex')"
  shows "lastIndex < lastIndex' \<and> lastIndex < length input"
proof -
  from assms have found: "firstMatchFrom input lastIndex = Some m"
    and next_index: "lastIndex' = index m + length (matchText m)"
    by (auto simp add: exec_def split: option.splits)
  from firstMatchFrom_bounds [OF found] next_index show ?thesis
    by (cases "matchText m") auto
qed

section \<open>Pseudo-element styles: getPseudoElementStyles\<close>

text \<open>
  The \<open>while\<close> loop over the matches of one selector. Its variables are \<open>baseSelector\<close>,
  \<open>seenPseudos\<close> (\<open>null\<close> until the first match) and the pattern's \<open>lastIndex\<close>.
\<close>

type_synonym scanState = "string \<times> string list option \<times> nat"

definition seeName :: "string list option \<Rightarrow> string \<Rightarrow> string list option" where
  "seeName seenPseudos name =
     (case seenPseudos of
        Some seen \<Rightarrow> if name \<in> set seen then Some seen else Some (seen @ [name])
      | None \<Rightarrow> Some [name])"

definition removeSpan :: "string \<Rightarrow> regExpExecArray \<Rightarrow> string" where
  \<comment> \<open>\<open>selectorText.slice(0, match.index) + selectorText.slice(match.index + match[0].length)\<close>\<close>
  "removeSpan selector m =
     take (index m) selector @ drop (index m + length (matchText m)) selector"

function scanSelector :: "string \<Rightarrow> scanState \<Rightarrow> scanState" where
  "scanSelector selector (baseSelector, seenPseudos, lastIndex) =
     (case exec lastIndex selector of
        (None, lastIndex') \<Rightarrow> (baseSelector, seenPseudos, lastIndex')
      | (Some m, lastIndex') \<Rightarrow>
          scanSelector selector
            (removeSpan selector m, seeName seenPseudos (''::'' @ matchGroup m), lastIndex'))"
  by pat_completeness auto

termination
  by (relation "measure (\<lambda>(selector, baseSelector, seenPseudos, lastIndex).
                  Suc (length selector) - lastIndex)")
    (auto dest!: exec_advances [OF sym])

declare scanSelector.simps [simp del]

text \<open>
  \<open>rulesByPseudoElement\<close> is an object whose keys are pseudo-element names and whose
  values are arrays of declaration blocks: an insertion-ordered association list.
\<close>

type_synonym rulesByPseudoElement = "(string \<times> CSSStyleDeclaration list) list"

definition stylesOf :: "rulesByPseudoElement \<Rightarrow> string \<Rightarrow> CSSStyleDeclaration list" where
  "stylesOf groups name = (case map_of groups name of Some styles \<Rightarrow> styles | None \<Rightarrow> [])"

definition pushStyle :: "CSSStyleDeclaration \<Rightarrow> rulesByPseudoElement \<Rightarrow> string \<Rightarrow> rulesByPseudoElement" where
  \<comment> \<open>\<open>(rulesByPseudoElement[name] || (rulesByPseudoElement[name] = [])).push(style)\<close>\<close>
  "pushStyle style groups name = AList.update name (stylesOf groups name @ [style]) groups"

definition groupRule :: "element \<Rightarrow> rulesByPseudoElement \<times> nat \<Rightarrow> cssRule \<Rightarrow> rulesByPseudoElement \<times> nat" where
  \<comment> \<open>The function given to \<open>rules.reduce\<close>, with the pattern's \<open>lastIndex\<close> beside the
      accumulator.\<close>
  "groupRule el acc rule =
     (case scanSelector (selectorText rule) (selectorText rule, None, snd acc) of
        (baseSelector, seenPseudos, lastIndex') \<Rightarrow>
          ((case seenPseudos of
              Some seen \<Rightarrow>
                if matches el (if baseSelector = [] then ''*'' else baseSelector)
                then foldl (pushStyle (ruleStyle rule)) (fst acc) seen
                else fst acc
            | None \<Rightarrow> fst acc),
           lastIndex'))"

type_synonym pseudoElementStyles = "(string \<times> properties option) list"

definition getPseudoElementStyles ::
    "element \<Rightarrow> cssRule list \<Rightarrow> nat \<Rightarrow> pseudoElementStyles option \<times> nat" where
  \<comment> \<open>The third argument is the pattern's \<open>lastIndex\<close> at the call; the second component
      of the result is its \<open>lastIndex\<close> at the return.\<close>
  "getPseudoElementStyles el rules lastIndex =
     (case foldl (groupRule el) ([], lastIndex) rules of
        (stylesByPseudoElement, lastIndex') \<Rightarrow>
          (let foundPseudoElements = map fst stylesByPseudoElement
           in if length foundPseudoElements = 0 then (None, lastIndex')
              else
                (Some (foldl
                    (\<lambda>styleByPseudoElement name.
                       AList.update name
                         (getAppliedPropertiesForStyles (stylesOf stylesByPseudoElement name))
                         styleByPseudoElement)
                    [] foundPseudoElements),
                 lastIndex')))"

section \<open>Notions used in the statements\<close>

text \<open>
  \<open>declarationsOf\<close> lists what the two nested loops read, in the order they read it;
  \<open>resolvedValue\<close> is \<open>properties[name]\<close> on the returned object, nothing when the
  result is \<open>null\<close>. \<open>blockEntry\<close> is what the loop reads for a name in one block, and
  \<open>winner\<close> the declaration a name ends up with: the first important one, or else the
  first one.
\<close>

definition declarationsOf :: "CSSStyleDeclaration list \<Rightarrow> (string \<times> bool \<times> string) list" where
  "declarationsOf styles =
     concat (map (\<lambda>style. map (readDeclaration style) [0..<length style]) styles)"

fun resolvedValue :: "properties option \<Rightarrow> string \<Rightarrow> string option" where
  "resolvedValue None name = None"
| "resolvedValue (Some props) name = map_of props name"

definition winner :: "(string \<times> bool \<times> string) list \<Rightarrow> string \<Rightarrow> (string \<times> bool \<times> string) option" where
  "winner ds n =
     (case find (\<lambda>d. fst d = n \<and> fst (snd d)) ds of
        Some d \<Rightarrow> Some d
      | None \<Rightarrow> find (\<lambda>d. fst d = n) ds)"

definition blockEntry :: "CSSStyleDeclaration \<Rightarrow> string \<Rightarrow> string \<times> bool \<times> string" where
  "blockEntry style n =
     (n, getPropertyPriority style n = ''important'',
      namedValue style n @ importantSuffix (getPropertyPriority style n = ''important''))"

text \<open>
  The override rule in the words of the specification. For every property the values
  resolved so far are kept, oldest first, each with the mark of its declaration. A
  declaration overwrites when (a) nothing is resolved yet for its property, or (b) it
  is marked important and no value resolved before for the property was.
\<close>

type_synonym resolution = "(string \<times> bool) list"

definition specOverwrites :: "resolution option \<Rightarrow> bool \<Rightarrow> bool" where
  "specOverwrites resolved isImportant =
     (case resolved of None \<Rightarrow> True | Some h \<Rightarrow> isImportant \<and> \<not> list_ex snd h)"

definition specStep :: "(string \<rightharpoonup> resolution) \<Rightarrow> string \<times> bool \<times> string \<Rightarrow> (string \<rightharpoonup> resolution)" where
  "specStep m d =
     (case d of (name, isImportant, val) \<Rightarrow>
        if specOverwrites (m name) isImportant
        then m(name \<mapsto> (case m name of None \<Rightarrow> [] | Some h \<Rightarrow> h) @ [(val, isImportant)])
        else m)"

definition specResolve :: "(string \<times> bool \<times> string) list \<Rightarrow> (string \<rightharpoonup> resolution)" where
  "specResolve ds = foldl specStep Map.empty ds"

definition specResolved :: "(string \<rightharpoonup> resolution) \<Rightarrow> string \<Rightarrow> string option" where
  "specResolved m name = map_option (\<lambda>h. fst (last h)) (m name)"

definition refines :: "resolverState \<Rightarrow> (string \<rightharpoonup> resolution) \<Rightarrow> bool" where
  "refines st m \<longleftrightarrow>
     (\<forall>n. resolvedValue (fst st) n = specResolved m n) \<and>
     snd st = {n. \<exists>h. m n = Some h \<and> list_ex snd h}"

text \<open>
  \<open>mediaHolds\<close> is the test the code makes on a media rule: \<open>matchMedia\<close> exists and
  the query matches. \<open>activeRules\<close> lists, in declaration order, the style rules of a
  rule tree that lie under no group whose condition fails: a style rule is emitted, a
  media or supports group is entered only when its condition holds, and any other kind
  of rule emits nothing. \<open>discovered\<close> is the sequence handed to \<open>sort\<close>, and a
  comparator is consistent when swapping its arguments swaps the sign of the result and
  "not greater" is transitive.
\<close>

definition mediaHolds :: "window \<Rightarrow> string \<Rightarrow> bool" where
  "mediaHolds window media = (case matchMedia window of Some mm \<Rightarrow> mm media | None \<Rightarrow> False)"

fun activeRules :: "window \<Rightarrow> cssRule list \<Rightarrow> cssRule list" 
  and activeRule :: "window \<Rightarrow> cssRule \<Rightarrow> cssRule list" where
  "activeRules window [] = []"
| "activeRules window (rule # rules) = activeRule window rule @ activeRules window rules"
| "activeRule window (CSSStyleRule selector style) = [CSSStyleRule selector style]"
| "activeRule window (CSSMediaRule media nested) =
     (if mediaHolds window media then activeRules window nested else [])"
| "activeRule window (CSSSupportsRule condition nested) =
     (if supports window condition then activeRules window nested else [])"
| "activeRule window (CSSOtherRule k nested) = []"

definition consistentComparator :: "('a \<Rightarrow> 'a \<Rightarrow> int) \<Rightarrow> bool" where
  "consistentComparator cmp \<longleftrightarrow>
     (\<forall>a b. sgn (cmp a b) = - sgn (cmp b a)) \<and>
     (\<forall>a b c. cmp a b \<le> 0 \<and> cmp b c \<le> 0 \<longrightarrow> cmp a c \<le> 0)"

definition discovered :: "document \<Rightarrow> cssRule list" where
  "discovered doc = concat (map (\<lambda>sheet. getStyleRulesFromSheet sheet (defaultView doc)) (styleSheets doc))"

text \<open>
  \<open>allMatches selector i\<close> lists the matches that successive calls of \<open>exec\<close> find in a
  selector from position \<open>i\<close> on, left to right. From it: the pseudo-element names of a
  selector, each written \<open>::\<close> and the captured text; its base selector, the selector
  without the span of the last match; the selector given to \<open>el.matches\<close>, which is
  \<open>*\<close> for an empty base selector; and whether a rule contributes to the groups, that is,
  its selector names a pseudo-element and the element matches.
\<close>

function allMatches :: "string \<Rightarrow> nat \<Rightarrow> regExpExecArray list" where
  "allMatches selector i =
     (case firstMatchFrom selector i of
        None \<Rightarrow> []
      | Some m \<Rightarrow> m # allMatches selector (index m + length (matchText m)))"
  by pat_completeness auto

termination
proof (relation "measure (\<lambda>(selector, i). Suc (length selector) - i)")
  show "wf (measure (\<lambda>(selector, i). Suc (length selector) - i))"
    by simp
next
  fix selector :: string and i :: nat and m :: regExpExecArray
  assume "firstMatchFrom selector i = Some m"
  from firstMatchFrom_bounds [OF this]
  show "((selector, index m + length (matchText m)), (selector, i))
          \<in> measure (\<lambda>(selector, i). Suc (length selector) - i)"
    by (cases "matchText m") auto
qed

declare allMatches.simps [simp del]

definition pseudoNamesOf :: "string \<Rightarrow> string list" where
  "pseudoNamesOf selector = map (\<lambda>m. ''::'' @ matchGroup m) (allMatches selector 0)"

definition baseSelectorOf :: "string \<Rightarrow> string" where
  "baseSelectorOf selector =
     (if allMatches selector 0 = [] then selector
      else removeSpan selector (last (allMatches selector 0)))"

definition matchedSelector :: "string \<Rightarrow> string" where
  "matchedSelector selector =
     (if baseSelectorOf selector = [] then ''*'' else baseSelectorOf selector)"

definition contributes :: "element \<Rightarrow> cssRule \<Rightarrow> bool" where
  "contributes el rule \<longleftrightarrow>
     pseudoNamesOf (selectorText rule) \<noteq> [] \<and>
     matches el (matchedSelector (selectorText rule))"

section \<open>Example inputs\<close>

text \<open>
  Concrete declarations, elements, rules, windows and documents on which the theorems
  below are instantiated; \<open>byLength\<close> stands in for the specificity comparator.
\<close>

abbreviation decl :: "string \<Rightarrow> string \<Rightarrow> string \<Rightarrow> cssDeclaration" where
  "decl n v p \<equiv> \<lparr>propertyName = n, propertyValue = v, priority = p\<rparr>"

abbreviation divElement :: element where
  "divElement \<equiv> \<lparr>elementStyle = [decl ''color'' ''red'' []], matches = (\<lambda>selector. selector = ''div'')\<rparr>"

abbreviation blueRule :: cssRule where
  "blueRule \<equiv> CSSStyleRule ''div'' [decl ''color'' ''blue'' ''important'']"

abbreviation byLength :: "string \<Rightarrow> string \<Rightarrow> int" where
  "byLength \<equiv> \<lambda>a b. int (length a) - int (length b)"

abbreviation screenWindow :: window where
  "screenWindow \<equiv>
     \<lparr>matchMedia = Some (\<lambda>media. media = ''screen''),
      supports = (\<lambda>condition. condition = ''(display: grid)'')\<rparr>"

abbreviation twoSheets :: document where
  "twoSheets \<equiv>
     \<lparr>styleSheets =
        [[CSSStyleRule ''a'' [], CSSStyleRule ''bb'' [], CSSStyleRule ''c'' []],
         [CSSStyleRule ''dd'' [], CSSStyleRule ''e'' []]],
      defaultView = screenWindow\<rparr>"

abbreviation plainDiv :: element where
  "plainDiv \<equiv> \<lparr>elementStyle = [], matches = (\<lambda>selector. selector = ''div'' \<or> selector = ''*'')\<rparr>"

abbreviation divBefore :: cssRule where
  "divBefore \<equiv> CSSStyleRule ''div::before'' [decl ''content'' ''x'' []]"

section \<open>Properties of the cascade resolver\<close>

lemma applyStyle_foldl:
  "applyStyle st style = foldl writeProperty st (map (readDeclaration style) [0..<length style])"
  by (simp add: applyStyle_def foldl_map)

lemma resolveFrom_declarationsOf:
  "resolveFrom st styles = foldl writeProperty st (declarationsOf styles)"
  unfolding resolveFrom_def declarationsOf_def
  by (induction styles arbitrary: st) (simp_all add: applyStyle_foldl)

lemma getApplied_declarationsOf:
  "getAppliedPropertiesForStyles styles = fst (foldl writeProperty (None, {}) (declarationsOf styles))"
  by (simp add: getAppliedPropertiesForStyles_def resolveFrom_declarationsOf)

lemma writeProperty_fst_Some: "\<exists>props. fst (writeProperty st d) = Some props"
  by (cases d) (simp add: writeProperty_def split: option.splits)

lemma foldl_writeProperty_None:
  "fst (foldl writeProperty st ds) = None \<longleftrightarrow> fst st = None \<and> ds = []"
proof (induction ds rule: rev_induct)
  case Nil
  show ?case by simp
next
  case (snoc d ds)
  obtain props where "fst (writeProperty (foldl writeProperty st ds) d) = Some props"
    using writeProperty_fst_Some by blast
  then show ?case by simp
qed

lemma declarationsOf_empty: "declarationsOf styles = [] \<longleftrightarrow> (\<forall>style\<in>set styles. style = [])"
  by (auto simp add: declarationsOf_def)

lemma set_update_subset: "set (AList.update k v al) \<subseteq> insert (k, v) (set al)"
  by (induction al) (auto)

lemma writeProperty_entries:
  assumes "fst (writeProperty st d) = Some props'" and "(n, v) \<in> set props'"
  shows "(n, v) = (fst d, snd (snd d)) \<or> (\<exists>props. fst st = Some props \<and> (n, v) \<in> set props)"
  using assms set_update_subset [of "fst d" "snd (snd d)"]
  by (cases d) (auto simp add: writeProperty_def split: option.splits if_splits)

lemma foldl_writeProperty_entries:
  "fst (foldl writeProperty (None, {}) ds) = Some props \<Longrightarrow> (n, v) \<in> set props \<Longrightarrow>
   \<exists>d\<in>set ds. n = fst d \<and> v = snd (snd d)"
proof (induction ds arbitrary: props rule: rev_induct)
  case Nil
  then show ?case by simp
next
  case (snoc d ds)
  from snoc.prems have "fst (writeProperty (foldl writeProperty (None, {}) ds) d) = Some props"
    by simp
  from writeProperty_entries [OF this snoc.prems(2)] snoc.IH show ?case
    by auto
qed

lemma findDeclaration_nth:
  assumes "i < length style"
  shows "\<exists>d\<in>set style. findDeclaration style (item style i) = Some d \<and> propertyName d = item style i"
proof -
  have "find (\<lambda>d. propertyName d = item style i) style \<noteq> None"
    using assms by (auto simp add: find_None_iff item_def intro!: exI [of _ "style ! i"])
  then obtain d where d: "find (\<lambda>d. propertyName d = item style i) style = Some d"
    by blast
  then have "d \<in> set style \<and> propertyName d = item style i"
    by (auto simp add: find_Some_iff)
  with d show ?thesis by (auto simp add: findDeclaration_def)
qed

lemma readDeclaration_source:
  assumes "i < length style"
  shows "\<exists>d\<in>set style. readDeclaration style i =
           (propertyName d, priority d = ''important'',
            (if isCustomProperty (propertyName d) then ''undefined'' else propertyValue d)
              @ importantSuffix (priority d = ''important''))"
proof -
  from findDeclaration_nth [OF assms] obtain d where
    "d \<in> set style" "findDeclaration style (item style i) = Some d" "propertyName d = item style i"
    by blast
  then have "d \<in> set style \<and> readDeclaration style i =
           (propertyName d, priority d = ''important'',
            (if isCustomProperty (propertyName d) then ''undefined'' else propertyValue d)
              @ importantSuffix (priority d = ''important''))"
    by (simp add: readDeclaration_def getPropertyPriority_def namedValue_def Let_def)
  then show ?thesis by blast
qed

lemma declarationsOf_source:
  assumes "t \<in> set (declarationsOf styles)"
  shows "\<exists>style\<in>set styles. \<exists>d\<in>set style.
           t = (propertyName d, priority d = ''important'',
                (if isCustomProperty (propertyName d) then ''undefined'' else propertyValue d)
                  @ importantSuffix (priority d = ''important''))"
proof -
  from assms obtain style i where "style \<in> set styles" "i < length style" "t = readDeclaration style i"
    by (auto simp add: declarationsOf_def)
  with readDeclaration_source [of i style] show ?thesis by blast
qed

lemma resolved_value_source:
  assumes "getAppliedPropertiesForStyles styles = Some props" and "(name, val) \<in> set props"
  shows "\<exists>style\<in>set styles. \<exists>d\<in>set style. propertyName d = name \<and>
           val = (if isCustomProperty name then ''undefined'' else propertyValue d)
                   @ importantSuffix (priority d = ''important'')"
proof -
  from assms obtain t where t: "t \<in> set (declarationsOf styles)" "name = fst t" "val = snd (snd t)"
    using foldl_writeProperty_entries by (fastforce simp add: getApplied_declarationsOf)
  from declarationsOf_source [OF t(1)] t(2,3) show ?thesis by fastforce
qed

lemma custom_property_reads_undefined:
  "getAppliedPropertiesForStyles
     [[\<lparr>propertyName = ''--x'', propertyValue = ''1'', priority = []\<rparr>]]
     = Some [(''--x'', ''undefined'')]"
  by code_simp

lemma refines_init: "refines (None, {}) Map.empty"
  by (simp add: refines_def specResolved_def)

lemma refines_step:
  assumes "refines st m"
  shows "refines (writeProperty st d) (specStep m d)"
proof -
  obtain name isImportant val where d: "d = (name, isImportant, val)"
    by (cases d) auto
  from assms have vals: "\<And>n. resolvedValue (fst st) n = specResolved m n"
    and imp: "snd st = {n. \<exists>h. m n = Some h \<and> list_ex snd h}"
    by (simp_all add: refines_def)
  show ?thesis
  proof (cases "fst st")
    case None
    with vals have empty: "\<And>n. m n = None"
      by (simp add: specResolved_def)
    with imp have "snd st = {}" by simp
    with None empty show ?thesis
      by (auto simp add: refines_def d writeProperty_def specStep_def specOverwrites_def
          specResolved_def)
  next
    case (Some props)
    with vals have look: "\<And>n. map_of props n = specResolved m n"
      by simp
    then have none_iff: "map_of props name = None \<longleftrightarrow> m name = None"
      by (simp add: specResolved_def)
    have cond: "(map_of props name = None \<or> (isImportant \<and> name \<notin> snd st))
                  \<longleftrightarrow> specOverwrites (m name) isImportant"
      using none_iff imp by (cases "m name") (auto simp add: specOverwrites_def)
    show ?thesis
    proof (cases "specOverwrites (m name) isImportant")
      case True
      with cond Some look imp show ?thesis
        by (auto simp add: refines_def d writeProperty_def specStep_def specOverwrites_def
            specResolved_def update_conv' split: option.splits)
    next
      case False
      with cond Some look imp show ?thesis
        by (auto simp add: refines_def d writeProperty_def specStep_def specOverwrites_def
            specResolved_def split: option.splits)
    qed
  qed
qed

lemma refines_foldl:
  "refines (foldl writeProperty (None, {}) ds) (specResolve ds)"
  unfolding specResolve_def
  by (induction ds rule: rev_induct) (simp_all add: refines_init refines_step)

lemma getApplied_refines_spec:
  "resolvedValue (getAppliedPropertiesForStyles styles) n =
     specResolved (specResolve (declarationsOf styles)) n"
  using refines_foldl [of "declarationsOf styles"]
  by (simp add: refines_def getApplied_declarationsOf)

lemma find_append_option:
  "find P (xs @ ys) = (case find P xs of None \<Rightarrow> find P ys | Some x \<Rightarrow> Some x)"
  by (induction xs) simp_all

lemma find_unique_value:
  assumes "\<forall>x\<in>set xs. P x \<longrightarrow> x = c"
  shows "find P xs = (if \<exists>x\<in>set xs. P x then Some c else None)"
  using assms by (induction xs) auto

lemma writeProperty_other_name:
  "fst d \<noteq> n \<Longrightarrow> resolvedValue (fst (writeProperty st d)) n = resolvedValue (fst st) n"
  by (cases d) (auto simp add: writeProperty_def update_conv' split: option.splits)

lemma writeProperty_same_name:
  "resolvedValue (fst (writeProperty st (n, b, v))) n =
     (if resolvedValue (fst st) n = None \<or> (b \<and> n \<notin> snd st) then Some v
      else resolvedValue (fst st) n)"
  by (auto simp add: writeProperty_def update_conv' split: option.splits)

lemma writeProperty_important:
  "snd (writeProperty st d) = (if fst (snd d) then insert (fst d) (snd st) else snd st)"
  by (cases d) (simp add: writeProperty_def)

lemma foldl_writeProperty_important:
  "snd (foldl writeProperty st ds) = snd st \<union> {n. \<exists>d\<in>set ds. fst d = n \<and> fst (snd d)}"
  by (induction ds rule: rev_induct) (auto simp add: writeProperty_important)

lemma find_SomeD: "find P xs = Some x \<Longrightarrow> P x \<and> x \<in> set xs"
  by (induction xs) (auto split: if_splits)

lemma find_important_None:
  "find (\<lambda>d. fst d = n \<and> fst (snd d)) ds = None \<longleftrightarrow> n \<notin> {n. \<exists>d\<in>set ds. fst d = n \<and> fst (snd d)}"
  unfolding find_None_iff by blast

lemma winner_None: "winner ds n = None \<longleftrightarrow> find (\<lambda>d. fst d = n) ds = None"
proof (cases "find (\<lambda>d. fst d = n \<and> fst (snd d)) ds")
  case None
  then show ?thesis by (simp add: winner_def)
next
  case (Some d)
  from find_SomeD [OF this] have "\<exists>x. x \<in> set ds \<and> fst x = n" by blast
  then have "find (\<lambda>d. fst d = n) ds \<noteq> None"
    unfolding find_None_iff by blast
  with Some show ?thesis by (simp add: winner_def)
qed

lemma winner_snoc:
  "winner (ds @ [d]) n =
     (if fst d = n \<and> (winner ds n = None \<or>
         (fst (snd d) \<and> find (\<lambda>d. fst d = n \<and> fst (snd d)) ds = None))
      then Some d else winner ds n)"
proof (cases "find (\<lambda>d. fst d = n \<and> fst (snd d)) ds")
  case (Some x)
  then show ?thesis by (simp add: winner_def find_append_option)
next
  case None
  then show ?thesis
    using winner_None [of ds n]
    by (cases "find (\<lambda>d. fst d = n) ds") (simp_all add: winner_def find_append_option)
qed

lemma foldl_writeProperty_winner:
  "resolvedValue (fst (foldl writeProperty (None, {}) ds)) n =
     map_option (\<lambda>d. snd (snd d)) (winner ds n)"
proof (induction ds rule: rev_induct)
  case Nil
  show ?case by (simp add: winner_def)
next
  case (snoc d ds)
  let ?st = "foldl writeProperty (None, {}) ds"
  obtain k b v where d: "d = (k, b, v)" by (cases d) auto
  show ?case
  proof (cases "k = n")
    case False
    with d have "resolvedValue (fst (writeProperty ?st d)) n = resolvedValue (fst ?st) n"
      by (simp add: writeProperty_other_name)
    moreover from False d have "winner (ds @ [d]) n = winner ds n"
      by (simp add: winner_snoc)
    ultimately show ?thesis using snoc.IH by simp
  next
    case True
    have imp: "n \<notin> snd ?st \<longleftrightarrow> find (\<lambda>d. fst d = n \<and> fst (snd d)) ds = None"
      by (simp add: foldl_writeProperty_important find_important_None)
    have none: "resolvedValue (fst ?st) n = None \<longleftrightarrow> winner ds n = None"
      using snoc.IH by simp
    have step: "resolvedValue (fst (writeProperty ?st d)) n =
        (if resolvedValue (fst ?st) n = None \<or> (b \<and> n \<notin> snd ?st) then Some v
         else resolvedValue (fst ?st) n)"
      using True d writeProperty_same_name [of ?st n b v] by simp
    show ?thesis
      unfolding foldl_append foldl.simps step imp none winner_snoc
      using True d snoc.IH by simp
  qed
qed

lemma readDeclaration_blockEntry: "readDeclaration style i = blockEntry style (item style i)"
  by (simp add: readDeclaration_def blockEntry_def Let_def)

lemma block_names:
  "(\<exists>t\<in>set (map (readDeclaration style) [0..<length style]). fst t = n)
     \<longleftrightarrow> findDeclaration style n \<noteq> None"
proof -
  have "(\<exists>t\<in>set (map (readDeclaration style) [0..<length style]). fst t = n)
          \<longleftrightarrow> (\<exists>i<length style. propertyName (style ! i) = n)"
    by (auto simp add: readDeclaration_blockEntry blockEntry_def item_def)
  also have "\<dots> \<longleftrightarrow> (\<exists>d. d \<in> set style \<and> propertyName d = n)"
    by (metis in_set_conv_nth)
  also have "\<dots> \<longleftrightarrow> findDeclaration style n \<noteq> None"
    by (simp add: findDeclaration_def find_None_iff)
  finally show ?thesis .
qed

lemma important_declared:
  "getPropertyPriority style n = ''important'' \<Longrightarrow> findDeclaration style n \<noteq> None"
  by (cases "findDeclaration style n") (simp_all add: getPropertyPriority_def)

lemma block_member_blockEntry:
  "t \<in> set (map (readDeclaration style) [0..<length style]) \<Longrightarrow> t = blockEntry style (fst t)"
  by (auto simp add: readDeclaration_blockEntry blockEntry_def)

lemma find_concat_map:
  assumes "\<And>x. find P (f x) = (if Q x then Some (g x) else None)"
  shows "find P (concat (map f xs)) = map_option g (find Q xs)"
  by (induction xs) (simp_all add: find_append_option assms)

lemma block_find_name:
  "find (\<lambda>d. fst d = n) (map (readDeclaration style) [0..<length style]) =
     (if findDeclaration style n \<noteq> None then Some (blockEntry style n) else None)"
proof -
  have "\<forall>t\<in>set (map (readDeclaration style) [0..<length style]). fst t = n \<longrightarrow> t = blockEntry style n"
    by (auto simp add: readDeclaration_blockEntry blockEntry_def)
  from find_unique_value [OF this] block_names [of style n] show ?thesis
    by simp
qed

lemma block_find_important:
  "find (\<lambda>d. fst d = n \<and> fst (snd d)) (map (readDeclaration style) [0..<length style]) =
     (if getPropertyPriority style n = ''important'' then Some (blockEntry style n) else None)"
proof -
  let ?ds = "map (readDeclaration style) [0..<length style]"
  have uniq: "\<forall>t\<in>set ?ds. fst t = n \<and> fst (snd t) \<longrightarrow> t = blockEntry style n"
    by (auto simp add: readDeclaration_blockEntry blockEntry_def)
  have "(\<exists>t\<in>set ?ds. fst t = n \<and> fst (snd t)) \<longleftrightarrow> getPropertyPriority style n = ''important''"
  proof
    assume "\<exists>t\<in>set ?ds. fst t = n \<and> fst (snd t)"
    then show "getPropertyPriority style n = ''important''"
      by (auto simp add: readDeclaration_blockEntry blockEntry_def)
  next
    assume imp: "getPropertyPriority style n = ''important''"
    from important_declared [OF this] block_names [of style n]
    obtain t where t: "t \<in> set ?ds" "fst t = n" by blast
    from block_member_blockEntry [OF t(1)] t(2) have "t = blockEntry style n"
      by simp
    with imp have "fst (snd t)"
      by (simp add: blockEntry_def)
    with t show "\<exists>t\<in>set ?ds. fst t = n \<and> fst (snd t)"
      by blast
  qed
  with find_unique_value [OF uniq] show ?thesis by simp
qed

lemma winner_declarationsOf:
  "winner (declarationsOf styles) n =
     (case find (\<lambda>style. getPropertyPriority style n = ''important'') styles of
        Some style \<Rightarrow> Some (blockEntry style n)
      | None \<Rightarrow> map_option (\<lambda>style. blockEntry style n)
                 (find (\<lambda>style. findDeclaration style n \<noteq> None) styles))"
proof -
  have imp: "find (\<lambda>d. fst d = n \<and> fst (snd d)) (declarationsOf styles) =
      map_option (\<lambda>style. blockEntry style n)
        (find (\<lambda>style. getPropertyPriority style n = ''important'') styles)"
    unfolding declarationsOf_def
    by (rule find_concat_map) (rule block_find_important)
  have any: "find (\<lambda>d. fst d = n) (declarationsOf styles) =
      map_option (\<lambda>style. blockEntry style n)
        (find (\<lambda>style. findDeclaration style n \<noteq> None) styles)"
    unfolding declarationsOf_def
    by (rule find_concat_map) (rule block_find_name)
  show ?thesis
    unfolding winner_def imp any
    by (cases "find (\<lambda>style. getPropertyPriority style n = ''important'') styles") simp_all
qed

lemma cascade_closed_form:
  "resolvedValue (getAppliedPropertiesForStyles styles) n =
     (case find (\<lambda>style. getPropertyPriority style n = ''important'') styles of
        Some style \<Rightarrow> Some (namedValue style n @ '' !important'')
      | None \<Rightarrow> map_option (\<lambda>style. namedValue style n)
                 (find (\<lambda>style. findDeclaration style n \<noteq> None) styles))"
proof (cases "find (\<lambda>style. getPropertyPriority style n = ''important'') styles")
  case (Some style)
  from find_SomeD [OF this] have "getPropertyPriority style n = ''important''" by simp
  with Some show ?thesis
    by (simp add: getApplied_declarationsOf foldl_writeProperty_winner winner_declarationsOf
        blockEntry_def importantSuffix_def)
next
  case None
  show ?thesis
  proof (cases "find (\<lambda>style. findDeclaration style n \<noteq> None) styles")
    case inner: None
    with None show ?thesis
      by (simp add: getApplied_declarationsOf foldl_writeProperty_winner winner_declarationsOf)
  next
    case (Some style)
    from find_SomeD [OF this] have "style \<in> set styles" by simp
    with None have "getPropertyPriority style n \<noteq> ''important''"
      unfolding find_None_iff by blast
    with None Some show ?thesis
      by (simp add: getApplied_declarationsOf foldl_writeProperty_winner winner_declarationsOf
          blockEntry_def importantSuffix_def)
  qed
qed

text \<open>
  Claim C1, as the code has it. The claim says that a stored value never carries the
  suffix \<open>" !important"\<close>. The resolver stores the value text followed by that suffix
  whenever the declaration it reads is marked important: for the single block
  \<open>{color: red !important}\<close> it returns \<open>"red !important"\<close>, not \<open>"red"\<close>.
\<close>

theorem important_value_keeps_suffix:
  "getAppliedPropertiesForStyles [[decl ''color'' ''red'' ''important'']]
     = Some [(''color'', ''red !important'')]
   \<and> getAppliedPropertiesForStyles [[decl ''color'' ''red'' ''important'']]
     \<noteq> Some [(''color'', ''red'')]"
proof -
  have "getAppliedPropertiesForStyles [[decl ''color'' ''red'' ''important'']]
          = Some [(''color'', ''red !important'')]"
    by code_simp
  then show ?thesis by simp
qed

text \<open>
  Claim C1, amended: every value stored in the resolved style map for a property that
  is not a custom property is the value text of a declaration of that property in the
  input, followed by \<open>" !important"\<close> exactly when that declaration is marked important.
  (For a custom property the code reads \<open>style[name]\<close>, which the object does not have:
  what it stores there is left out of the statement.)
\<close>

theorem resolved_values_carry_important_suffix:
  assumes "getAppliedPropertiesForStyles styles = Some props" and "(name, val) \<in> set props"
    and "\<not> isCustomProperty name"
  shows "\<exists>style\<in>set styles. \<exists>d\<in>set style. propertyName d = name \<and>
           val = propertyValue d @ importantSuffix (priority d = ''important'')"
  using resolved_value_source [OF assms(1,2)] assms(3) by simp

theorem resolved_values_carry_important_suffix_witness:
  "getAppliedPropertiesForStyles [[decl ''color'' ''red'' ''important''], [decl ''top'' ''0'' []]]
     = Some [(''color'', ''red !important''), (''top'', ''0'')]
   \<and> \<not> isCustomProperty ''color''
   \<and> (\<exists>style\<in>set [[decl ''color'' ''red'' ''important''], [decl ''top'' ''0'' []]].
         \<exists>d\<in>set style. propertyName d = ''color'' \<and>
           ''red !important'' = propertyValue d @ importantSuffix (priority d = ''important''))"
proof -
  have result: "getAppliedPropertiesForStyles
      [[decl ''color'' ''red'' ''important''], [decl ''top'' ''0'' []]]
        = Some [(''color'', ''red !important''), (''top'', ''0'')]"
    by code_simp
  have entry: "(''color'', ''red !important'') \<in> set [(''color'', ''red !important''), (''top'', ''0'')]"
    by simp
  have standard: "\<not> isCustomProperty ''color''"
    by code_simp
  from resolved_values_carry_important_suffix [OF result entry standard] result standard
  show ?thesis by blast
qed

text \<open>
  Claim C8, as the code has it. The claim says that the resolver returns an absent
  result only for the empty sequence. \<open>properties\<close> is created at the first declaration
  read, so a sequence that is not empty but holds only empty blocks gives \<open>null\<close> too.
\<close>

theorem empty_block_gives_absent:
  "getAppliedPropertiesForStyles [[]] = None \<and> [[]] \<noteq> ([] :: CSSStyleDeclaration list)"
proof -
  have "getAppliedPropertiesForStyles [[]] = None"
    by code_simp
  then show ?thesis by simp
qed

text \<open>
  Claim C8, amended: the resolver returns an absent result if and only if no block of
  its input declares anything (the sequence is empty, or each of its blocks is); for
  every input with at least one declaration it returns a resolved style map.
\<close>

theorem absent_iff_no_declaration:
  "getAppliedPropertiesForStyles styles = None \<longleftrightarrow> (\<forall>style\<in>set styles. style = [])"
  by (simp add: getApplied_declarationsOf foldl_writeProperty_None declarationsOf_empty)

theorem absent_iff_no_declaration_witness:
  "getAppliedPropertiesForStyles [[], []] = None
   \<and> getAppliedPropertiesForStyles [[], [decl ''top'' ''0'' []]] \<noteq> None"
  using absent_iff_no_declaration [of "[[], []]"]
    absent_iff_no_declaration [of "[[], [decl ''top'' ''0'' []]]"]
  by simp

text \<open>
  Claim C2, as the code has it. The two scenarios of the claim name the resolved colour
  as \<open>red\<close> and \<open>blue\<close>. The declaration that wins is the one the claim names, but the
  value resolved for it is \<open>"red !important"\<close>, and \<open>"blue !important"\<close>.
\<close>

theorem important_chain_value_not_bare:
  "resolvedValue (getAppliedPropertiesForStyles
      [[decl ''color'' ''red'' ''important''], [decl ''color'' ''blue'' ''important'']]) ''color''
     \<noteq> Some ''red''"
proof -
  have "resolvedValue (getAppliedPropertiesForStyles
      [[decl ''color'' ''red'' ''important''], [decl ''color'' ''blue'' ''important'']]) ''color''
     = Some ''red !important''"
    by code_simp
  then show ?thesis by simp
qed

text \<open>
  Claim C2, amended: walking the blocks highest priority first, a declaration
  overwrites the value resolved for its property if and only if (a) nothing is resolved
  yet for that property, or (b) the declaration is marked important and no value
  resolved before for that property was; that is, the resolver computes what
  \<open>specResolve\<close> does. For \<open>[{color: red !important}, {color: blue !important}]\<close> the
  resolved colour is the first block's, stored as \<open>"red !important"\<close>, and for
  \<open>[{color: red}, {color: blue !important}, {color: green}]\<close> it is the second block's,
  stored as \<open>"blue !important"\<close>.
\<close>

theorem important_override_rule:
  "(\<forall>n. resolvedValue (getAppliedPropertiesForStyles styles) n
          = specResolved (specResolve (declarationsOf styles)) n)
   \<and> resolvedValue (getAppliedPropertiesForStyles
        [[decl ''color'' ''red'' ''important''], [decl ''color'' ''blue'' ''important'']]) ''color''
       = Some ''red !important''
   \<and> resolvedValue (getAppliedPropertiesForStyles
        [[decl ''color'' ''red'' []], [decl ''color'' ''blue'' ''important''],
         [decl ''color'' ''green'' []]]) ''color''
       = Some ''blue !important''"
proof -
  have chain: "resolvedValue (getAppliedPropertiesForStyles
        [[decl ''color'' ''red'' ''important''], [decl ''color'' ''blue'' ''important'']]) ''color''
       = Some ''red !important''"
    by code_simp
  have override: "resolvedValue (getAppliedPropertiesForStyles
        [[decl ''color'' ''red'' []], [decl ''color'' ''blue'' ''important''],
         [decl ''color'' ''green'' []]]) ''color''
       = Some ''blue !important''"
    by code_simp
  from chain override getApplied_refines_spec show ?thesis
    by blast
qed

theorem important_override_rule_witness:
  "resolvedValue (getAppliedPropertiesForStyles
      [[decl ''color'' ''red'' []], [decl ''color'' ''blue'' ''important''],
       [decl ''color'' ''green'' ''important'']]) ''color''
     = specResolved (specResolve (declarationsOf
         [[decl ''color'' ''red'' []], [decl ''color'' ''blue'' ''important''],
          [decl ''color'' ''green'' ''important'']])) ''color''
   \<and> specResolve (declarationsOf
         [[decl ''color'' ''red'' []], [decl ''color'' ''blue'' ''important''],
          [decl ''color'' ''green'' ''important'']]) ''color''
     = Some [(''red'', False), (''blue !important'', True)]"
proof -
  have "specResolve (declarationsOf
         [[decl ''color'' ''red'' []], [decl ''color'' ''blue'' ''important''],
          [decl ''color'' ''green'' ''important'']]) ''color''
     = Some [(''red'', False), (''blue !important'', True)]"
    by code_simp
  with important_override_rule
      [of "[[decl ''color'' ''red'' []], [decl ''color'' ''blue'' ''important''],
            [decl ''color'' ''green'' ''important'']]"]
  show ?thesis by blast
qed

section \<open>Properties of getElementStyles\<close>

text \<open>
  Claim C3, as the code has it. The inline block is first, and the important
  declaration of the matching rule wins over the inline one as the claim says, but the
  colour resolved is \<open>"blue !important"\<close>, not \<open>"blue"\<close>.
\<close>

theorem inline_color_not_bare_blue:
  "resolvedValue (getElementStyles divElement [blueRule]) ''color'' \<noteq> Some ''blue''"
proof -
  have "resolvedValue (getElementStyles divElement [blueRule]) ''color'' = Some ''blue !important''"
    by code_simp
  then show ?thesis by simp
qed

text \<open>
  Claim C3, amended: \<open>getElementStyles\<close> passes the element's inline block first, before
  the blocks of all matching rules in the order of the rule list. Hence, for a property
  the inline block declares: when the inline declaration is not important and a matching
  rule declares the property important, the first such rule's value is resolved, with
  the suffix \<open>" !important"\<close>; otherwise the inline value is. Inline \<open>color: red\<close> with
  a matching rule \<open>color: blue !important\<close> resolves the colour to the rule's
  declaration, stored as \<open>"blue !important"\<close>.
\<close>

theorem inline_block_first:
  "getElementStyles el rules =
     getAppliedPropertiesForStyles
       (elementStyle el # map ruleStyle (filter (\<lambda>rule. matches el (selectorText rule)) rules))
   \<and> (findDeclaration (elementStyle el) n \<noteq> None \<longrightarrow>
        getPropertyPriority (elementStyle el) n \<noteq> ''important'' \<longrightarrow>
        find (\<lambda>style. getPropertyPriority style n = ''important'')
          (map ruleStyle (filter (\<lambda>rule. matches el (selectorText rule)) rules)) = Some style \<longrightarrow>
        resolvedValue (getElementStyles el rules) n = Some (namedValue style n @ '' !important''))
   \<and> (findDeclaration (elementStyle el) n \<noteq> None \<longrightarrow>
        (getPropertyPriority (elementStyle el) n = ''important'' \<or>
         find (\<lambda>style. getPropertyPriority style n = ''important'')
           (map ruleStyle (filter (\<lambda>rule. matches el (selectorText rule)) rules)) = None) \<longrightarrow>
        resolvedValue (getElementStyles el rules) n =
          Some (namedValue (elementStyle el) n
                @ importantSuffix (getPropertyPriority (elementStyle el) n = ''important'')))
   \<and> resolvedValue (getElementStyles divElement [blueRule]) ''color'' = Some ''blue !important''"
proof -
  let ?matching = "map ruleStyle (filter (\<lambda>rule. matches el (selectorText rule)) rules)"
  have first: "getElementStyles el rules = getAppliedPropertiesForStyles (elementStyle el # ?matching)"
    by (simp add: getElementStyles_def)
  have later_important: "resolvedValue (getElementStyles el rules) n = Some (namedValue style n @ '' !important'')"
    if "getPropertyPriority (elementStyle el) n \<noteq> ''important''"
      and "find (\<lambda>style. getPropertyPriority style n = ''important'') ?matching = Some style"
    using that by (simp add: first cascade_closed_form)
  have inline_wins: "resolvedValue (getElementStyles el rules) n =
          Some (namedValue (elementStyle el) n
                @ importantSuffix (getPropertyPriority (elementStyle el) n = ''important''))"
    if "findDeclaration (elementStyle el) n \<noteq> None"
      and "getPropertyPriority (elementStyle el) n = ''important'' \<or>
         find (\<lambda>style. getPropertyPriority style n = ''important'') ?matching = None"
    using that by (auto simp add: first cascade_closed_form importantSuffix_def)
  have example: "resolvedValue (getElementStyles divElement [blueRule]) ''color'' = Some ''blue !important''"
    by code_simp
  from first later_important inline_wins example show ?thesis
    by blast
qed

theorem inline_block_first_witness:
  "findDeclaration (elementStyle divElement) ''color'' \<noteq> None
   \<and> getPropertyPriority (elementStyle divElement) ''color'' \<noteq> ''important''
   \<and> find (\<lambda>style. getPropertyPriority style ''color'' = ''important'')
        (map ruleStyle (filter (\<lambda>rule. matches divElement (selectorText rule)) [blueRule]))
      = Some [decl ''color'' ''blue'' ''important'']
   \<and> resolvedValue (getElementStyles divElement [blueRule]) ''color''
      = Some (namedValue [decl ''color'' ''blue'' ''important''] ''color'' @ '' !important'')
   \<and> find (\<lambda>style. getPropertyPriority style ''color'' = ''important'')
        (map ruleStyle (filter (\<lambda>rule. matches divElement (selectorText rule)) [])) = None
   \<and> resolvedValue (getElementStyles divElement []) ''color'' = Some ''red''"
proof -
  have declared: "findDeclaration (elementStyle divElement) ''color'' \<noteq> None"
    by code_simp
  have plain: "getPropertyPriority (elementStyle divElement) ''color'' \<noteq> ''important''"
    by code_simp
  have found: "find (\<lambda>style. getPropertyPriority style ''color'' = ''important'')
        (map ruleStyle (filter (\<lambda>rule. matches divElement (selectorText rule)) [blueRule]))
      = Some [decl ''color'' ''blue'' ''important'']"
    by code_simp
  have none: "find (\<lambda>style. getPropertyPriority style ''color'' = ''important'')
        (map ruleStyle (filter (\<lambda>rule. matches divElement (selectorText rule)) [])) = None"
    by simp
  have inline_value: "namedValue (elementStyle divElement) ''color''
      @ importantSuffix (getPropertyPriority (elementStyle divElement) ''color'' = ''important'')
      = ''red''"
    by code_simp
  from inline_block_first [of divElement "[blueRule]" "''color''" "[decl ''color'' ''blue'' ''important'']"]
    declared plain found
  have later: "resolvedValue (getElementStyles divElement [blueRule]) ''color''
      = Some (namedValue [decl ''color'' ''blue'' ''important''] ''color'' @ '' !important'')"
    by blast
  from inline_block_first [of divElement "[]" "''color''"] declared none
  have "resolvedValue (getElementStyles divElement []) ''color''
      = Some (namedValue (elementStyle divElement) ''color''
          @ importantSuffix (getPropertyPriority (elementStyle divElement) ''color'' = ''important''))"
    by blast
  with inline_value have "resolvedValue (getElementStyles divElement []) ''color'' = Some ''red''"
    by (simp only:)
  with declared plain found later none show ?thesis by blast
qed

section \<open>Properties of rule collection and ordering\<close>

lemma getStyleRulesFromSheet_Nil: "getStyleRulesFromSheet [] window = []"
  by (simp add: getStyleRulesFromSheet.simps)

lemma getStyleRulesFromSheet_append:
  "getStyleRulesFromSheet (before @ after) window =
     getStyleRulesFromSheet after window @ getStyleRulesFromSheet before window"
  by (simp add: getStyleRulesFromSheet.simps [of "before @ after"]
      getStyleRulesFromSheet.simps [of before] getStyleRulesFromSheet.simps [of after])

lemma getStyleRulesFromSheet_Cons:
  "getStyleRulesFromSheet (rule # rules) window =
     getStyleRulesFromSheet rules window @ getStyleRulesFromSheet [rule] window"
  using getStyleRulesFromSheet_append [of "[rule]" rules window] by simp

lemma getStyleRulesFromSheet_style:
  "getStyleRulesFromSheet [CSSStyleRule selector style] window = [CSSStyleRule selector style]"
  by (simp add: getStyleRulesFromSheet.simps [of "[CSSStyleRule selector style]"] isStyleRule_def)

lemma getStyleRulesFromSheet_media:
  "getStyleRulesFromSheet [CSSMediaRule media nested] window =
     (if mediaHolds window media then getStyleRulesFromSheet nested window else [])"
  by (cases "matchMedia window")
    (simp_all add: getStyleRulesFromSheet.simps [of "[CSSMediaRule media nested]"]
      isStyleRule_def isMediaRule_def isSupportsRule_def mediaHolds_def)

lemma getStyleRulesFromSheet_supports:
  "getStyleRulesFromSheet [CSSSupportsRule condition nested] window =
     (if supports window condition then getStyleRulesFromSheet nested window else [])"
  by (simp add: getStyleRulesFromSheet.simps [of "[CSSSupportsRule condition nested]"]
      isStyleRule_def isMediaRule_def isSupportsRule_def)

lemma getStyleRulesFromSheet_other:
  "getStyleRulesFromSheet [CSSOtherRule k nested] window = []"
  using otherType_not_group [of k]
  by (simp add: getStyleRulesFromSheet.simps [of "[CSSOtherRule k nested]"]
      isStyleRule_def isMediaRule_def isSupportsRule_def)

lemma getStyleRulesFromSheet_rev_active:
  "getStyleRulesFromSheet rules window = rev (activeRules window rules)"
  and getStyleRulesFromSheet_rev_single:
    "getStyleRulesFromSheet [rule] window = rev (activeRule window rule)"
proof (induction window rules and window rule rule: activeRules_activeRule.induct)
  case (1 window)
  show ?case by (simp add: getStyleRulesFromSheet_Nil)
next
  case (2 window rule rules)
  then show ?case by (simp add: getStyleRulesFromSheet_Cons [of rule rules])
next
  case (3 window selector style)
  show ?case by (simp add: getStyleRulesFromSheet_style)
next
  case (4 window media nested)
  then show ?case by (simp add: getStyleRulesFromSheet_media)
next
  case (5 window condition nested)
  then show ?case by (simp add: getStyleRulesFromSheet_supports)
next
  case (6 window k nested)
  show ?case by (simp add: getStyleRulesFromSheet_other)
qed

lemma activeRules_style_only:
  "r \<in> set (activeRules window rules) \<Longrightarrow> isStyleRule r"
  and activeRule_style_only: "r \<in> set (activeRule window rule) \<Longrightarrow> isStyleRule r"
  by (induction window rules and window rule rule: activeRules_activeRule.induct)
    (auto simp add: isStyleRule_def split: if_splits)

lemma collected_style_only:
  "r \<in> set (getStyleRulesFromSheet rules window) \<Longrightarrow> isStyleRule r"
  by (simp add: getStyleRulesFromSheet_rev_active activeRules_style_only)

lemma set_insertBy: "set (insertBy cmp x xs) = insert x (set xs)"
  by (induction xs) auto

lemma set_arraySort: "set (arraySort cmp xs) = set xs"
  unfolding arraySort_def by (induction xs) (simp_all add: set_insertBy)

lemma foldl_flatten: "foldl flatten acc xss = acc @ concat xss"
  by (induction xss arbitrary: acc) (simp_all add: flatten_def)

lemma getDocumentStyleRules_discovered:
  "getDocumentStyleRules compare doc =
     arraySort (\<lambda>a b. compare (selectorText b) (selectorText a)) (discovered doc)"
  by (simp add: getDocumentStyleRules_def discovered_def foldl_flatten)

lemma sgn_opposite:
  fixes a b :: int
  assumes "sgn a = - sgn b"
  shows "(0 < a \<longleftrightarrow> b < 0) \<and> (a = 0 \<longleftrightarrow> b = 0)"
  using assms by (cases "a < 0"; cases "a = 0"; cases "b < 0"; cases "b = 0") (simp_all add: sgn_if)

lemma comparator_signs:
  assumes "consistentComparator cmp"
  shows "(0 < cmp x y \<longleftrightarrow> cmp y x < 0) \<and> (cmp x y = 0 \<longleftrightarrow> cmp y x = 0)"
proof -
  from assms have "sgn (cmp x y) = - sgn (cmp y x)"
    unfolding consistentComparator_def by blast
  then show ?thesis by (rule sgn_opposite)
qed

lemma comparator_flip:
  assumes "consistentComparator cmp" and "\<not> cmp x y \<le> 0"
  shows "cmp y x \<le> 0"
  using comparator_signs [OF assms(1), of x y] assms(2) by linarith

lemma comparator_trans:
  assumes "consistentComparator cmp" and "cmp a b \<le> 0" and "cmp b c \<le> 0"
  shows "cmp a c \<le> 0"
  using assms unfolding consistentComparator_def by blast

lemma sorted_insertBy:
  assumes "consistentComparator cmp" and "sorted_wrt (\<lambda>a b. cmp a b \<le> 0) xs"
  shows "sorted_wrt (\<lambda>a b. cmp a b \<le> 0) (insertBy cmp x xs)"
  using assms(2)
proof (induction xs)
  case Nil
  show ?case by simp
next
  case (Cons y ys)
  show ?case
  proof (cases "cmp x y \<le> 0")
    case True
    have "cmp x z \<le> 0" if "z \<in> set ys" for z
      using comparator_trans [OF assms(1) True] Cons.prems that by simp
    with True Cons.prems show ?thesis by simp
  next
    case False
    from comparator_flip [OF assms(1) False] have "cmp y x \<le> 0" .
    with False Cons show ?thesis
      by (simp add: set_insertBy)
  qed
qed

lemma sorted_arraySort:
  assumes "consistentComparator cmp"
  shows "sorted_wrt (\<lambda>a b. cmp a b \<le> 0) (arraySort cmp xs)"
  unfolding arraySort_def
  by (induction xs) (simp_all add: sorted_insertBy [OF assms])

lemma filter_insertBy:
  assumes "\<And>a b. P a \<Longrightarrow> P b \<Longrightarrow> cmp a b \<le> 0"
  shows "filter P (insertBy cmp x ys) = (if P x then x # filter P ys else filter P ys)"
  using assms by (induction ys) auto

lemma filter_arraySort:
  assumes "\<And>a b. P a \<Longrightarrow> P b \<Longrightarrow> cmp a b \<le> 0"
  shows "filter P (arraySort cmp xs) = filter P xs"
  unfolding arraySort_def
  by (induction xs) (simp_all add: filter_insertBy [of P cmp, OF assms])

lemma length_insertBy: "length (insertBy cmp x xs) = Suc (length xs)"
  by (induction xs) simp_all

lemma length_arraySort: "length (arraySort cmp xs) = length xs"
  unfolding arraySort_def by (induction xs) (simp_all add: length_insertBy)

lemma equal_class_closed:
  assumes "consistentComparator compare"
    and "compare a s = 0" and "compare b s = 0"
  shows "compare b a \<le> 0"
proof -
  from comparator_signs [OF assms(1), of a s] assms(2) have "compare s a \<le> 0"
    by simp
  with comparator_trans [OF assms(1), of b s a] assms(3) show ?thesis
    by simp
qed

text \<open>
  Claim C4: with a consistent comparator, a rule whose selector is strictly more specific
  than another's stands before it in the result of \<open>getDocumentStyleRules\<close>, whatever
  the input order; the rules whose selectors compare equal to a given selector keep
  their discovery order; the result holds the discovered rules, no more and no fewer;
  and the discovery order of a sheet is the reverse of its declaration order.
\<close>

theorem rules_sorted_by_specificity:
  assumes "consistentComparator compare"
  shows "(\<forall>i j. i < length (getDocumentStyleRules compare doc) \<and>
            j < length (getDocumentStyleRules compare doc) \<and>
            0 < compare (selectorText (getDocumentStyleRules compare doc ! i))
                        (selectorText (getDocumentStyleRules compare doc ! j))
            \<longrightarrow> i < j)
       \<and> (\<forall>s. filter (\<lambda>r. compare (selectorText r) s = 0) (getDocumentStyleRules compare doc)
              = filter (\<lambda>r. compare (selectorText r) s = 0) (discovered doc))
       \<and> length (getDocumentStyleRules compare doc) = length (discovered doc)
       \<and> set (getDocumentStyleRules compare doc) = set (discovered doc)
       \<and> discovered doc
           = concat (map (\<lambda>sheet. rev (activeRules (defaultView doc) sheet)) (styleSheets doc))"
proof -
  let ?cmp = "\<lambda>a b. compare (selectorText b) (selectorText a)"
  let ?out = "getDocumentStyleRules compare doc"
  have flipped: "consistentComparator ?cmp"
    using assms unfolding consistentComparator_def by blast
  have sorted: "sorted_wrt (\<lambda>a b. ?cmp a b \<le> 0) ?out"
    unfolding getDocumentStyleRules_discovered by (rule sorted_arraySort [OF flipped])
  have order: "i < j"
    if "i < length ?out" and "j < length ?out"
      and higher: "0 < compare (selectorText (?out ! i)) (selectorText (?out ! j))" for i j
  proof (rule ccontr)
    assume "\<not> i < j"
    then consider "j < i" | "i = j" by linarith
    then show False
    proof cases
      case 1
      with sorted that(1) have "?cmp (?out ! j) (?out ! i) \<le> 0"
        by (simp add: sorted_wrt_iff_nth_less)
      with higher show False by simp
    next
      case 2
      from comparator_signs [OF assms, of "selectorText (?out ! i)" "selectorText (?out ! i)"]
        higher 2
      show False by simp
    qed
  qed
  have stable: "filter (\<lambda>r. compare (selectorText r) s = 0) ?out
              = filter (\<lambda>r. compare (selectorText r) s = 0) (discovered doc)" for s
    unfolding getDocumentStyleRules_discovered
    by (rule filter_arraySort) (rule equal_class_closed [OF assms])
  have len: "length ?out = length (discovered doc)"
    by (simp add: getDocumentStyleRules_discovered length_arraySort)
  have same: "set ?out = set (discovered doc)"
    by (simp add: getDocumentStyleRules_discovered set_arraySort)
  have reverse: "discovered doc
           = concat (map (\<lambda>sheet. rev (activeRules (defaultView doc) sheet)) (styleSheets doc))"
    by (simp add: discovered_def getStyleRulesFromSheet_rev_active)
  from order stable len same reverse show ?thesis by blast
qed

theorem rules_sorted_by_specificity_witness:
  "consistentComparator byLength
   \<and> getDocumentStyleRules byLength twoSheets
       = [CSSStyleRule ''bb'' [], CSSStyleRule ''dd'' [], CSSStyleRule ''c'' [],
          CSSStyleRule ''a'' [], CSSStyleRule ''e'' []]
   \<and> 0 < byLength (selectorText (getDocumentStyleRules byLength twoSheets ! 0))
                   (selectorText (getDocumentStyleRules byLength twoSheets ! 2))
   \<and> (0 :: nat) < 2
   \<and> filter (\<lambda>r. byLength (selectorText r) ''a'' = 0) (getDocumentStyleRules byLength twoSheets)
       = filter (\<lambda>r. byLength (selectorText r) ''a'' = 0) (discovered twoSheets)
   \<and> discovered twoSheets
       = [CSSStyleRule ''c'' [], CSSStyleRule ''bb'' [], CSSStyleRule ''a'' [],
          CSSStyleRule ''e'' [], CSSStyleRule ''dd'' []]"
proof -
  have consistent: "consistentComparator byLength"
    by (simp add: consistentComparator_def sgn_if)
  have sorted: "getDocumentStyleRules byLength twoSheets
       = [CSSStyleRule ''bb'' [], CSSStyleRule ''dd'' [], CSSStyleRule ''c'' [],
          CSSStyleRule ''a'' [], CSSStyleRule ''e'' []]"
    by code_simp
  have higher: "0 < byLength (selectorText (getDocumentStyleRules byLength twoSheets ! 0))
                   (selectorText (getDocumentStyleRules byLength twoSheets ! 2))"
    unfolding sorted by simp
  have inside: "0 < length (getDocumentStyleRules byLength twoSheets)"
    "2 < length (getDocumentStyleRules byLength twoSheets)"
    unfolding sorted by simp_all
  have found: "discovered twoSheets
       = [CSSStyleRule ''c'' [], CSSStyleRule ''bb'' [], CSSStyleRule ''a'' [],
          CSSStyleRule ''e'' [], CSSStyleRule ''dd'' []]"
    by code_simp
  note sorted_rules = rules_sorted_by_specificity [OF consistent, of twoSheets]
  from sorted_rules inside higher have "(0 :: nat) < 2"
    by blast
  with sorted_rules consistent sorted higher found show ?thesis
    by blast
qed

text \<open>
  Claim C6: what rule collection returns, for a sheet and for a document, holds style
  rules only; a media group or a supports group whose condition fails, and a rule of
  any other kind, contribute nothing, whatever they contain: the result is the same as
  without them. Collection returns exactly the active style rules, last declared first.
\<close>

theorem only_active_style_rules:
  "(\<forall>r\<in>set (getStyleRulesFromSheet rules window). isStyleRule r)
   \<and> (\<forall>r\<in>set (getDocumentStyleRules compare doc). isStyleRule r)
   \<and> (\<not> mediaHolds window media \<longrightarrow>
        getStyleRulesFromSheet (before @ [CSSMediaRule media nested] @ after) window
          = getStyleRulesFromSheet (before @ after) window)
   \<and> (\<not> supports window condition \<longrightarrow>
        getStyleRulesFromSheet (before @ [CSSSupportsRule condition nested] @ after) window
          = getStyleRulesFromSheet (before @ after) window)
   \<and> getStyleRulesFromSheet (before @ [CSSOtherRule k nested] @ after) window
        = getStyleRulesFromSheet (before @ after) window
   \<and> getStyleRulesFromSheet rules window = rev (activeRules window rules)"
proof -
  have sheet: "\<forall>r\<in>set (getStyleRulesFromSheet rules window). isStyleRule r"
    using collected_style_only by blast
  have "\<forall>r\<in>set (discovered doc). isStyleRule r"
    using collected_style_only by (auto simp add: discovered_def)
  then have whole: "\<forall>r\<in>set (getDocumentStyleRules compare doc). isStyleRule r"
    by (simp add: getDocumentStyleRules_discovered set_arraySort)
  have media: "getStyleRulesFromSheet (before @ [CSSMediaRule media nested] @ after) window
          = getStyleRulesFromSheet (before @ after) window" if "\<not> mediaHolds window media"
    using that
    by (simp add: getStyleRulesFromSheet_append getStyleRulesFromSheet_media
        getStyleRulesFromSheet_Cons [of "CSSMediaRule media nested" after])
  have feature: "getStyleRulesFromSheet (before @ [CSSSupportsRule condition nested] @ after) window
          = getStyleRulesFromSheet (before @ after) window" if "\<not> supports window condition"
    using that
    by (simp add: getStyleRulesFromSheet_append getStyleRulesFromSheet_supports
        getStyleRulesFromSheet_Cons [of "CSSSupportsRule condition nested" after])
  have other: "getStyleRulesFromSheet (before @ [CSSOtherRule k nested] @ after) window
        = getStyleRulesFromSheet (before @ after) window"
    by (simp add: getStyleRulesFromSheet_append getStyleRulesFromSheet_other
        getStyleRulesFromSheet_Cons [of "CSSOtherRule k nested" after])
  from sheet whole media feature other getStyleRulesFromSheet_rev_active show ?thesis
    by blast
qed

theorem only_active_style_rules_witness:
  "\<not> mediaHolds screenWindow ''print''
   \<and> \<not> supports screenWindow ''(display: flex)''
   \<and> getStyleRulesFromSheet
        ([CSSStyleRule ''a'' []] @ [CSSMediaRule ''print'' [CSSStyleRule ''p'' []]]
           @ [CSSStyleRule ''d'' []]) screenWindow
       = getStyleRulesFromSheet ([CSSStyleRule ''a'' []] @ [CSSStyleRule ''d'' []]) screenWindow
   \<and> getStyleRulesFromSheet
        ([CSSStyleRule ''a'' []] @ [CSSSupportsRule ''(display: flex)'' [CSSStyleRule ''p'' []]]
           @ [CSSStyleRule ''d'' []]) screenWindow
       = getStyleRulesFromSheet ([CSSStyleRule ''a'' []] @ [CSSStyleRule ''d'' []]) screenWindow
   \<and> getStyleRulesFromSheet ([CSSStyleRule ''a'' []] @ [CSSStyleRule ''d'' []]) screenWindow
       = [CSSStyleRule ''d'' [], CSSStyleRule ''a'' []]
   \<and> isStyleRule (CSSStyleRule ''d'' [])"
proof -
  have print: "\<not> mediaHolds screenWindow ''print''"
    by code_simp
  have flex: "\<not> supports screenWindow ''(display: flex)''"
    by code_simp
  have rest: "getStyleRulesFromSheet ([CSSStyleRule ''a'' []] @ [CSSStyleRule ''d'' []]) screenWindow
       = [CSSStyleRule ''d'' [], CSSStyleRule ''a'' []]"
    by code_simp
  from only_active_style_rules
      [of "[CSSStyleRule ''a'' []] @ [CSSStyleRule ''d'' []]" screenWindow byLength twoSheets
        "''print''" "[CSSStyleRule ''a'' []]" "[CSSStyleRule ''p'' []]" "[CSSStyleRule ''d'' []]"
        "''(display: flex)''" KEYFRAMES_RULE]
    print flex rest
  show ?thesis by simp
qed

section \<open>Properties of getPseudoElementStyles\<close>

lemma exec_None: "firstMatchFrom selector i = None \<Longrightarrow> exec i selector = (None, 0)"
  by (simp add: exec_def)

lemma exec_Some:
  "firstMatchFrom selector i = Some m \<Longrightarrow>
     exec i selector = (Some m, index m + length (matchText m))"
  by (simp add: exec_def)

lemma scanSelector_allMatches:
  "scanSelector selector (baseSelector, seenPseudos, lastIndex) =
     ((if allMatches selector lastIndex = [] then baseSelector
       else removeSpan selector (last (allMatches selector lastIndex))),
      foldl seeName seenPseudos (map (\<lambda>m. ''::'' @ matchGroup m) (allMatches selector lastIndex)),
      0)"
proof (induction selector lastIndex arbitrary: baseSelector seenPseudos rule: allMatches.induct)
  case (1 selector i)
  show ?case
  proof (cases "firstMatchFrom selector i")
    case None
    then show ?thesis
      by (simp add: scanSelector.simps [of selector baseSelector seenPseudos i]
          exec_None allMatches.simps [of selector i])
  next
    case (Some m)
    from "1.IH" [OF Some] Some show ?thesis
      by (simp add: scanSelector.simps [of selector baseSelector seenPseudos i]
          exec_Some allMatches.simps [of selector i])
  qed
qed

lemma foldl_seeName_Some:
  "distinct seen \<Longrightarrow>
     \<exists>seen'. foldl seeName (Some seen) names = Some seen' \<and> distinct seen' \<and>
        set seen' = set seen \<union> set names"
proof (induction names arbitrary: seen)
  case Nil
  then show ?case by simp
next
  case (Cons name names)
  show ?case
  proof (cases "name \<in> set seen")
    case True
    with Cons.IH [OF Cons.prems] show ?thesis
      by (auto simp add: seeName_def)
  next
    case False
    with Cons.prems have "distinct (seen @ [name])" by simp
    from Cons.IH [OF this] False show ?thesis
      by (auto simp add: seeName_def)
  qed
qed

lemma foldl_seeName_None:
  "foldl seeName None names = None \<longleftrightarrow> names = []"
  and foldl_seeName_seen: "foldl seeName None names = Some seen \<Longrightarrow> distinct seen \<and> set seen = set names"
proof -
  show "foldl seeName None names = None \<longleftrightarrow> names = []"
  proof (cases names)
    case Nil
    then show ?thesis by simp
  next
    case (Cons name rest)
    with foldl_seeName_Some [of "[name]" rest] show ?thesis
      by (auto simp add: seeName_def)
  qed
  show "distinct seen \<and> set seen = set names" if "foldl seeName None names = Some seen"
  proof (cases names)
    case Nil
    with that show ?thesis by simp
  next
    case (Cons name rest)
    with foldl_seeName_Some [of "[name]" rest] that show ?thesis
      by (auto simp add: seeName_def)
  qed
qed

lemma scanSelector_fresh:
  "scanSelector selector (selector, None, lastIndex) =
     ((if allMatches selector lastIndex = [] then selector
       else removeSpan selector (last (allMatches selector lastIndex))),
      foldl seeName None (map (\<lambda>m. ''::'' @ matchGroup m) (allMatches selector lastIndex)),
      0)"
  by (rule scanSelector_allMatches)

lemma groupRule_lastIndex: "snd (groupRule el acc rule) = 0"
proof -
  obtain groups lastIndex where acc: "acc = (groups, lastIndex)" by (cases acc) auto
  show ?thesis
    by (simp add: groupRule_def acc scanSelector_fresh)
qed

lemma foldl_groupRule_lastIndex: "snd (foldl (groupRule el) (groups, 0) rules) = 0"
  by (induction rules rule: rev_induct) (simp_all add: groupRule_lastIndex)

lemma stylesOf_pushStyle:
  "stylesOf (pushStyle style groups n) name =
     (if name = n then stylesOf groups n @ [style] else stylesOf groups name)"
  by (simp add: pushStyle_def stylesOf_def update_conv')

lemma keys_pushStyle: "fst ` set (pushStyle style groups n) = insert n (fst ` set groups)"
  by (simp add: pushStyle_def dom_update)

lemma stylesOf_foldl_pushStyle:
  "distinct seen \<Longrightarrow>
     stylesOf (foldl (pushStyle style) groups seen) name =
       (if name \<in> set seen then stylesOf groups name @ [style] else stylesOf groups name)"
proof (induction seen arbitrary: groups)
  case Nil
  show ?case by simp
next
  case (Cons n seen)
  then have "distinct seen" and "n \<notin> set seen" by simp_all
  with Cons.IH [of "pushStyle style groups n"] show ?case
    by (auto simp add: stylesOf_pushStyle)
qed

lemma keys_foldl_pushStyle:
  "fst ` set (foldl (pushStyle style) groups seen) = fst ` set groups \<union> set seen"
  by (induction seen arbitrary: groups) (auto simp add: keys_pushStyle)

lemma groupRule_contributes:
  "\<not> contributes el rule \<Longrightarrow> fst (groupRule el (groups, 0) rule) = groups"
  and groupRule_pushes: "contributes el rule \<Longrightarrow>
        \<exists>seen. distinct seen \<and> set seen = set (pseudoNamesOf (selectorText rule)) \<and>
          fst (groupRule el (groups, 0) rule) = foldl (pushStyle (ruleStyle rule)) groups seen"
proof -
  let ?sel = "selectorText rule"
  let ?names = "map (\<lambda>m. ''::'' @ matchGroup m) (allMatches ?sel 0)"
  have scan: "scanSelector ?sel (?sel, None, 0) = (baseSelectorOf ?sel, foldl seeName None ?names, 0)"
    by (simp add: scanSelector_fresh baseSelectorOf_def)
  have star: "(if baseSelectorOf ?sel = [] then ''*'' else baseSelectorOf ?sel) = matchedSelector ?sel"
    by (simp add: matchedSelector_def)
  have step: "fst (groupRule el (groups, 0) rule) =
      (case foldl seeName None ?names of
         Some seen \<Rightarrow>
           if matches el (matchedSelector ?sel)
           then foldl (pushStyle (ruleStyle rule)) groups seen else groups
       | None \<Rightarrow> groups)"
    by (simp only: groupRule_def snd_conv fst_conv scan prod.case star)
  show "fst (groupRule el (groups, 0) rule) = groups" if "\<not> contributes el rule"
  proof (cases "foldl seeName None ?names")
    case None
    with step show ?thesis by simp
  next
    case (Some seen)
    with foldl_seeName_None [of ?names] have "pseudoNamesOf ?sel \<noteq> []"
      by (auto simp add: pseudoNamesOf_def)
    with that have "\<not> matches el (matchedSelector ?sel)"
      by (simp add: contributes_def)
    with step Some show ?thesis by simp
  qed
  show "\<exists>seen. distinct seen \<and> set seen = set (pseudoNamesOf ?sel) \<and>
          fst (groupRule el (groups, 0) rule) = foldl (pushStyle (ruleStyle rule)) groups seen"
    if "contributes el rule"
  proof -
    from that have names: "?names \<noteq> []" and hit: "matches el (matchedSelector ?sel)"
      by (simp_all add: contributes_def pseudoNamesOf_def)
    from names foldl_seeName_None [of ?names] obtain seen
      where seen: "foldl seeName None ?names = Some seen"
      by (cases "foldl seeName None ?names") simp_all
    from foldl_seeName_seen [OF seen] have "distinct seen" and "set seen = set (pseudoNamesOf ?sel)"
      by (simp_all add: pseudoNamesOf_def)
    moreover from step seen hit
    have "fst (groupRule el (groups, 0) rule) = foldl (pushStyle (ruleStyle rule)) groups seen"
      by simp
    ultimately show ?thesis by blast
  qed
qed

lemma stylesOf_groupRule:
  "stylesOf (fst (groupRule el (groups, 0) rule)) name =
     (if contributes el rule \<and> name \<in> set (pseudoNamesOf (selectorText rule))
      then stylesOf groups name @ [ruleStyle rule] else stylesOf groups name)"
proof (cases "contributes el rule")
  case False
  with groupRule_contributes [OF False] show ?thesis by simp
next
  case True
  from groupRule_pushes [OF True, of groups] obtain seen where
    "distinct seen" "set seen = set (pseudoNamesOf (selectorText rule))"
    "fst (groupRule el (groups, 0) rule) = foldl (pushStyle (ruleStyle rule)) groups seen"
    by blast
  with True show ?thesis
    by (simp add: stylesOf_foldl_pushStyle)
qed

lemma keys_groupRule:
  "fst ` set (fst (groupRule el (groups, 0) rule)) =
     fst ` set groups \<union>
       (if contributes el rule then set (pseudoNamesOf (selectorText rule)) else {})"
proof (cases "contributes el rule")
  case False
  with groupRule_contributes [OF False] show ?thesis by simp
next
  case True
  from groupRule_pushes [OF True, of groups] obtain seen where
    "set seen = set (pseudoNamesOf (selectorText rule))"
    "fst (groupRule el (groups, 0) rule) = foldl (pushStyle (ruleStyle rule)) groups seen"
    by blast
  with True show ?thesis
    by (simp add: keys_foldl_pushStyle)
qed

lemma foldl_groupRule_snoc:
  "foldl (groupRule el) (groups, 0) (rules @ [rule]) =
     groupRule el (fst (foldl (groupRule el) (groups, 0) rules), 0) rule"
proof -
  have "foldl (groupRule el) (groups, 0) rules = (fst (foldl (groupRule el) (groups, 0) rules), 0)"
    using foldl_groupRule_lastIndex [of el groups rules]
    by (cases "foldl (groupRule el) (groups, 0) rules") simp
  then show ?thesis by simp
qed

lemma keys_foldl_groupRule:
  "fst ` set (fst (foldl (groupRule el) (groups, 0) rules)) =
     fst ` set groups \<union>
       (\<Union>rule\<in>{rule \<in> set rules. contributes el rule}. set (pseudoNamesOf (selectorText rule)))"
proof (induction rules rule: rev_induct)
  case Nil
  show ?case by simp
next
  case (snoc rule rules)
  show ?case
    unfolding foldl_groupRule_snoc keys_groupRule snoc.IH
    by auto
qed

lemma keys_foldl_update:
  "fst ` set (foldl (\<lambda>acc name. AList.update name (f name) acc) start names) =
     fst ` set start \<union> set names"
  by (induction names arbitrary: start) (auto simp add: dom_update)

lemma getPseudoElementStyles_lastIndex: "snd (getPseudoElementStyles el rules 0) = 0"
proof -
  obtain groups lastIndex where run: "foldl (groupRule el) ([], 0) rules = (groups, lastIndex)"
    by (cases "foldl (groupRule el) ([], 0) rules") auto
  with foldl_groupRule_lastIndex [of el "[]" rules] have "lastIndex = 0" by simp
  with run show ?thesis
    by (simp add: getPseudoElementStyles_def Let_def)
qed

lemma getPseudoElementStyles_keys:
  "fst (getPseudoElementStyles el rules 0) = None \<longleftrightarrow> (\<forall>rule\<in>set rules. \<not> contributes el rule)"
  and getPseudoElementStyles_names: "fst (getPseudoElementStyles el rules 0) = Some result \<Longrightarrow>
        fst ` set result =
          (\<Union>rule\<in>{rule \<in> set rules. contributes el rule}. set (pseudoNamesOf (selectorText rule)))"
proof -
  obtain groups lastIndex where run: "foldl (groupRule el) ([], 0) rules = (groups, lastIndex)"
    by (cases "foldl (groupRule el) ([], 0) rules") auto
  from keys_foldl_groupRule [of el "[]" rules] run
  have keys: "fst ` set groups =
      (\<Union>rule\<in>{rule \<in> set rules. contributes el rule}. set (pseudoNamesOf (selectorText rule)))"
    by simp
  have named: "pseudoNamesOf (selectorText rule) \<noteq> []" if "contributes el rule" for rule
    using that by (simp add: contributes_def)
  have empty: "groups = [] \<longleftrightarrow> (\<forall>rule\<in>set rules. \<not> contributes el rule)"
  proof
    assume "groups = []"
    with keys have "(\<Union>rule\<in>{rule \<in> set rules. contributes el rule}.
        set (pseudoNamesOf (selectorText rule))) = {}"
      by simp
    with named show "\<forall>rule\<in>set rules. \<not> contributes el rule"
      by fastforce
  next
    assume "\<forall>rule\<in>set rules. \<not> contributes el rule"
    then have "{rule \<in> set rules. contributes el rule} = {}" by blast
    with keys have "fst ` set groups = {}" by simp
    then show "groups = []" by simp
  qed
  from run empty
  show "fst (getPseudoElementStyles el rules 0) = None \<longleftrightarrow> (\<forall>rule\<in>set rules. \<not> contributes el rule)"
    by (simp add: getPseudoElementStyles_def Let_def)
  show "fst ` set result =
          (\<Union>rule\<in>{rule \<in> set rules. contributes el rule}. set (pseudoNamesOf (selectorText rule)))"
    if "fst (getPseudoElementStyles el rules 0) = Some result"
  proof -
    from that run have "result = foldl
        (\<lambda>acc name. AList.update name (getAppliedPropertiesForStyles (stylesOf groups name)) acc)
        [] (map fst groups)"
      by (simp add: getPseudoElementStyles_def Let_def split: if_splits)
    then have "fst ` set result = fst ` set groups"
      by (simp add: keys_foldl_update)
    with keys show ?thesis by simp
  qed
qed

lemma matchLiteral_iff:
  "matchLiteral p input \<longleftrightarrow>
     length p \<le> length input \<and> map canonicalize (take (length p) input) = map canonicalize p"
  by (induction p input rule: matchLiteral.induct) auto

lemma matchAlternatives_Some:
  "matchAlternatives ps input = Some g \<Longrightarrow>
     \<exists>p\<in>set ps. g = take (length p) input \<and> map canonicalize g = map canonicalize p"
  by (induction ps) (auto simp add: matchLiteral_iff split: if_splits)

lemma matchHere_group:
  assumes "matchHere input = Some (len, g)"
  shows "\<exists>k. \<exists>p\<in>set pseudoElementNames.
           g = take (length p) (drop k input) \<and> map canonicalize g = map canonicalize p"
proof -
  from assms obtain r where input: "input = CHR '':'' # r"
    by (auto simp add: matchHere_def split: list.splits if_splits)
  from assms input consider
      (double) r2 where "r = CHR '':'' # r2" "matchAlternatives pseudoElementNames r2 = Some g"
    | (single) "matchAlternatives pseudoElementNames r = Some g"
    by (auto simp add: matchHere_def split: list.splits if_splits option.splits)
  then show ?thesis
  proof cases
    case double
    from matchAlternatives_Some [OF double(2)] input double(1) show ?thesis
      by (intro exI [of _ 2]) simp
  next
    case single
    from matchAlternatives_Some [OF single] input show ?thesis
      by (intro exI [of _ 1]) simp
  qed
qed

lemma firstMatchFrom_found:
  "firstMatchFrom input i = Some m \<Longrightarrow>
     \<exists>len. matchHere (drop (index m) input) = Some (len, matchGroup m) \<and>
       matchText m = take len (drop (index m) input)"
proof (induction input i rule: firstMatchFrom.induct)
  case (1 input i)
  show ?case
  proof (cases "matchHere (drop i input)")
    case None
    with "1.prems" have inside: "\<not> length input < i" and "firstMatchFrom input (i + 1) = Some m"
      by (simp_all add: firstMatchFrom.simps [of input i] split: if_splits)
    with "1.IH" [OF inside None] show ?thesis by simp
  next
    case (Some found)
    obtain len g where found: "found = (len, g)" by (cases found) auto
    with "1.prems" Some show ?thesis
      by (auto simp add: firstMatchFrom.simps [of input i] split: if_splits)
  qed
qed

lemma firstMatchFrom_span:
  assumes "firstMatchFrom input i = Some m"
  shows "input = take (index m) input @ matchText m
                   @ drop (index m + length (matchText m)) input"
proof -
  from firstMatchFrom_found [OF assms] obtain len where
    taken: "matchText m = take len (drop (index m) input)" by blast
  have whole: "take len t @ drop (length (take len t)) t = t" for t :: string
    by (cases "len \<le> length t") (simp_all add: min_def)
  have "drop (index m + length (matchText m)) input
          = drop (length (matchText m)) (drop (index m) input)"
    by (simp add: add.commute)
  with whole [of "drop (index m) input"] taken
  have "matchText m @ drop (index m + length (matchText m)) input = drop (index m) input"
    by simp
  then show ?thesis by simp
qed

lemma firstMatchFrom_group:
  assumes "firstMatchFrom input i = Some m"
  shows "\<exists>k. \<exists>p\<in>set pseudoElementNames.
           matchGroup m = take (length p) (drop k input) \<and>
           map canonicalize (matchGroup m) = map canonicalize p"
proof -
  from firstMatchFrom_found [OF assms] obtain len where
    "matchHere (drop (index m) input) = Some (len, matchGroup m)" by blast
  from matchHere_group [OF this] obtain k p where
    "p \<in> set pseudoElementNames"
    "matchGroup m = take (length p) (drop k (drop (index m) input))"
    "map canonicalize (matchGroup m) = map canonicalize p"
    by blast
  then show ?thesis
    by (intro exI [of _ "k + index m"] bexI [of _ p]) simp_all
qed

lemma allMatches_member:
  "m \<in> set (allMatches selector i) \<Longrightarrow> \<exists>j. firstMatchFrom selector j = Some m"
proof (induction selector i rule: allMatches.induct)
  case (1 selector i)
  show ?case
  proof (cases "firstMatchFrom selector i")
    case None
    with "1.prems" show ?thesis
      by (simp add: allMatches.simps [of selector i])
  next
    case (Some first)
    with "1.prems" have "m = first \<or> m \<in> set (allMatches selector (index first + length (matchText first)))"
      by (simp add: allMatches.simps [of selector i])
    with "1.IH" [OF Some] Some show ?thesis by blast
  qed
qed

text \<open>
  Claim C5: for a rule whose selector holds a pseudo-element token, the base selector
  the loop ends with is the selector text without the span of the last match, and that
  span is where the match's text stands in the selector (a selector with two tokens
  keeps the first: \<open>div::before, span::after\<close> gives \<open>div::before, span\<close>); an empty base
  selector is matched as \<open>*\<close>; and the rule's block is appended, once, to the group of
  each name found when the element matches, and to no group otherwise.
\<close>

theorem pseudo_rule_grouping:
  "(allMatches (selectorText rule) 0 \<noteq> [] \<longrightarrow>
      fst (scanSelector (selectorText rule) (selectorText rule, None, 0))
        = removeSpan (selectorText rule) (last (allMatches (selectorText rule) 0))
      \<and> selectorText rule
        = take (index (last (allMatches (selectorText rule) 0))) (selectorText rule)
          @ matchText (last (allMatches (selectorText rule) 0))
          @ drop (index (last (allMatches (selectorText rule) 0))
                  + length (matchText (last (allMatches (selectorText rule) 0))))
              (selectorText rule)
      \<and> stylesOf (fst (groupRule el (groups, 0) rule)) name
        = (if name \<in> set (pseudoNamesOf (selectorText rule)) \<and>
              matches el
                (if fst (scanSelector (selectorText rule) (selectorText rule, None, 0)) = []
                 then ''*''
                 else fst (scanSelector (selectorText rule) (selectorText rule, None, 0)))
           then stylesOf groups name @ [ruleStyle rule]
           else stylesOf groups name))
   \<and> scanSelector ''div::before, span::after'' (''div::before, span::after'', None, 0)
       = (''div::before, span'', Some [''::before'', ''::after''], 0)
   \<and> groupRule plainDiv ([], 0) (CSSStyleRule ''::before'' [decl ''content'' ''x'' []])
       = ([(''::before'', [[decl ''content'' ''x'' []]])], 0)"
proof -
  let ?sel = "selectorText rule"
  have general: "fst (scanSelector ?sel (?sel, None, 0)) = removeSpan ?sel (last (allMatches ?sel 0))
      \<and> ?sel = take (index (last (allMatches ?sel 0))) ?sel
          @ matchText (last (allMatches ?sel 0))
          @ drop (index (last (allMatches ?sel 0)) + length (matchText (last (allMatches ?sel 0)))) ?sel
      \<and> stylesOf (fst (groupRule el (groups, 0) rule)) name
        = (if name \<in> set (pseudoNamesOf ?sel) \<and>
              matches el
                (if fst (scanSelector ?sel (?sel, None, 0)) = [] then ''*''
                 else fst (scanSelector ?sel (?sel, None, 0)))
           then stylesOf groups name @ [ruleStyle rule]
           else stylesOf groups name)"
    if found: "allMatches ?sel 0 \<noteq> []"
  proof -
    from found have base: "fst (scanSelector ?sel (?sel, None, 0)) = baseSelectorOf ?sel"
      by (simp add: scanSelector_fresh baseSelectorOf_def)
    with found have removed: "fst (scanSelector ?sel (?sel, None, 0))
        = removeSpan ?sel (last (allMatches ?sel 0))"
      by (simp add: baseSelectorOf_def)
    from found have "last (allMatches ?sel 0) \<in> set (allMatches ?sel 0)"
      by simp
    from allMatches_member [OF this] obtain j
      where "firstMatchFrom ?sel j = Some (last (allMatches ?sel 0))" by blast
    from firstMatchFrom_span [OF this]
    have span: "?sel = take (index (last (allMatches ?sel 0))) ?sel
          @ matchText (last (allMatches ?sel 0))
          @ drop (index (last (allMatches ?sel 0)) + length (matchText (last (allMatches ?sel 0)))) ?sel" .
    from found have "contributes el rule \<longleftrightarrow>
        matches el (if baseSelectorOf ?sel = [] then ''*'' else baseSelectorOf ?sel)"
      by (simp add: contributes_def pseudoNamesOf_def matchedSelector_def)
    then have pushed: "stylesOf (fst (groupRule el (groups, 0) rule)) name
        = (if name \<in> set (pseudoNamesOf ?sel) \<and>
              matches el
                (if fst (scanSelector ?sel (?sel, None, 0)) = [] then ''*''
                 else fst (scanSelector ?sel (?sel, None, 0)))
           then stylesOf groups name @ [ruleStyle rule]
           else stylesOf groups name)"
      unfolding base stylesOf_groupRule by auto
    from removed span pushed show ?thesis by blast
  qed
  have two: "scanSelector ''div::before, span::after'' (''div::before, span::after'', None, 0)
       = (''div::before, span'', Some [''::before'', ''::after''], 0)"
    by code_simp
  have star: "groupRule plainDiv ([], 0) (CSSStyleRule ''::before'' [decl ''content'' ''x'' []])
       = ([(''::before'', [[decl ''content'' ''x'' []]])], 0)"
    by code_simp
  from general two star show ?thesis by blast
qed

theorem pseudo_rule_grouping_witness:
  "allMatches (selectorText divBefore) 0 \<noteq> []
   \<and> fst (scanSelector (selectorText divBefore) (selectorText divBefore, None, 0)) = ''div''
   \<and> stylesOf (fst (groupRule plainDiv ([], 0) divBefore)) ''::before''
       = stylesOf [] ''::before'' @ [ruleStyle divBefore]"
proof -
  have found: "allMatches (selectorText divBefore) 0 \<noteq> []"
    by code_simp
  have base: "fst (scanSelector (selectorText divBefore) (selectorText divBefore, None, 0)) = ''div''"
    by code_simp
  have hit: "''::before'' \<in> set (pseudoNamesOf (selectorText divBefore)) \<and>
      matches plainDiv
        (if fst (scanSelector (selectorText divBefore) (selectorText divBefore, None, 0)) = []
         then ''*''
         else fst (scanSelector (selectorText divBefore) (selectorText divBefore, None, 0)))"
    by code_simp
  from pseudo_rule_grouping [of divBefore plainDiv "[]" "''::before''"] found
  have "stylesOf (fst (groupRule plainDiv ([], 0) divBefore)) ''::before''
        = (if ''::before'' \<in> set (pseudoNamesOf (selectorText divBefore)) \<and>
              matches plainDiv
                (if fst (scanSelector (selectorText divBefore) (selectorText divBefore, None, 0)) = []
                 then ''*''
                 else fst (scanSelector (selectorText divBefore) (selectorText divBefore, None, 0)))
           then stylesOf [] ''::before'' @ [ruleStyle divBefore]
           else stylesOf [] ''::before'')"
    by blast
  with hit have "stylesOf (fst (groupRule plainDiv ([], 0) divBefore)) ''::before''
       = stylesOf [] ''::before'' @ [ruleStyle divBefore]"
    by (simp only: if_True simp_thms)
  with found base show ?thesis by blast
qed

text \<open>
  Claim C7: \<open>getPseudoElementStyles\<close> returns \<open>null\<close> exactly when no rule contributes
  to a group; a mapping it returns is never empty, and each name in it is named by the
  selector of a rule whose base selector the element matches.
\<close>

theorem absent_iff_no_contribution:
  "(fst (getPseudoElementStyles el rules 0) = None
      \<longleftrightarrow> (\<forall>rule\<in>set rules. \<not> contributes el rule))
   \<and> (\<forall>result name.
        fst (getPseudoElementStyles el rules 0) = Some result \<and> name \<in> fst ` set result \<longrightarrow>
        (\<exists>rule\<in>set rules.
           name \<in> set (pseudoNamesOf (selectorText rule)) \<and>
           matches el (matchedSelector (selectorText rule))))
   \<and> fst (getPseudoElementStyles el rules 0) \<noteq> Some []"
proof -
  have absent: "fst (getPseudoElementStyles el rules 0) = None
      \<longleftrightarrow> (\<forall>rule\<in>set rules. \<not> contributes el rule)"
    by (rule getPseudoElementStyles_keys)
  have named: "\<exists>rule\<in>set rules.
           name \<in> set (pseudoNamesOf (selectorText rule)) \<and>
           matches el (matchedSelector (selectorText rule))"
    if "fst (getPseudoElementStyles el rules 0) = Some result" and "name \<in> fst ` set result"
    for result name
    using getPseudoElementStyles_names [OF that(1)] that(2)
    by (auto simp add: contributes_def)
  have nonempty: "fst (getPseudoElementStyles el rules 0) \<noteq> Some []"
  proof
    assume empty: "fst (getPseudoElementStyles el rules 0) = Some []"
    from getPseudoElementStyles_names [OF this]
    have "\<forall>rule\<in>set rules. contributes el rule \<longrightarrow> pseudoNamesOf (selectorText rule) = []"
      by simp
    then have "\<forall>rule\<in>set rules. \<not> contributes el rule"
      by (auto simp add: contributes_def)
    with absent empty show False by simp
  qed
  from absent named nonempty show ?thesis by blast
qed

theorem absent_iff_no_contribution_witness:
  "\<not> contributes plainDiv (CSSStyleRule ''div'' [decl ''color'' ''red'' []])
   \<and> \<not> contributes plainDiv (CSSStyleRule ''span::before'' [decl ''content'' ''x'' []])
   \<and> fst (getPseudoElementStyles plainDiv
        [CSSStyleRule ''div'' [decl ''color'' ''red'' []],
         CSSStyleRule ''span::before'' [decl ''content'' ''x'' []]] 0) = None
   \<and> fst (getPseudoElementStyles plainDiv [divBefore] 0)
       = Some [(''::before'', Some [(''content'', ''x'')])]
   \<and> ''::before'' \<in> fst ` set [(''::before'', Some [(''content'', ''x'')])]
   \<and> (\<exists>rule\<in>set [divBefore].
         ''::before'' \<in> set (pseudoNamesOf (selectorText rule)) \<and>
         matches plainDiv (matchedSelector (selectorText rule)))"
proof -
  have base: "\<not> contributes plainDiv (CSSStyleRule ''div'' [decl ''color'' ''red'' []])"
    by code_simp
  have other: "\<not> contributes plainDiv (CSSStyleRule ''span::before'' [decl ''content'' ''x'' []])"
    by code_simp
  from absent_iff_no_contribution
    [of plainDiv "[CSSStyleRule ''div'' [decl ''color'' ''red'' []],
         CSSStyleRule ''span::before'' [decl ''content'' ''x'' []]]"]
    base other
  have absent: "fst (getPseudoElementStyles plainDiv
        [CSSStyleRule ''div'' [decl ''color'' ''red'' []],
         CSSStyleRule ''span::before'' [decl ''content'' ''x'' []]] 0) = None"
    by simp
  have result: "fst (getPseudoElementStyles plainDiv [divBefore] 0)
       = Some [(''::before'', Some [(''content'', ''x'')])]"
    by code_simp
  have key: "''::before'' \<in> fst ` set [(''::before'', Some [(''content'', ''x'')])]"
    by simp
  from absent_iff_no_contribution [of plainDiv "[divBefore]"] result key
  have "\<exists>rule\<in>set [divBefore].
         ''::before'' \<in> set (pseudoNamesOf (selectorText rule)) \<and>
         matches plainDiv (matchedSelector (selectorText rule))"
    by blast
  with base other absent result key show ?thesis by blast
qed

text \<open>
  Claim C9: a call of \<open>getPseudoElementStyles\<close> that finds the pattern's \<open>lastIndex\<close> at
  0, where the module sets it, leaves it at 0 (each rule's scan ends with the failed
  \<open>exec\<close> that resets it); so a second call with the same arguments, or one made after a
  call with other arguments, returns what the first returns. \<open>getElementStyles\<close> reads no
  state of the module: it is a function of its two arguments.
\<close>

theorem calls_leave_pattern_reset:
  "snd (getPseudoElementStyles el rules 0) = 0
   \<and> getPseudoElementStyles el rules (snd (getPseudoElementStyles el rules 0))
       = getPseudoElementStyles el rules 0
   \<and> getPseudoElementStyles el rules (snd (getPseudoElementStyles el' rules' 0))
       = getPseudoElementStyles el rules 0
   \<and> snd (groupRule el acc rule) = 0"
  by (simp add: getPseudoElementStyles_lastIndex groupRule_lastIndex)

theorem calls_leave_pattern_reset_witness:
  "snd (getPseudoElementStyles plainDiv [CSSStyleRule ''div::before'' [decl ''content'' ''x'' []]] 0) = 0
   \<and> getPseudoElementStyles plainDiv [CSSStyleRule ''div::before'' [decl ''content'' ''x'' []]]
        (snd (getPseudoElementStyles plainDiv
               [CSSStyleRule ''div::before'' [decl ''content'' ''x'' []]] 0))
       = (Some [(''::before'', Some [(''content'', ''x'')])], 0)"
proof -
  have "getPseudoElementStyles plainDiv [CSSStyleRule ''div::before'' [decl ''content'' ''x'' []]] 0
          = (Some [(''::before'', Some [(''content'', ''x'')])], 0)"
    by code_simp
  with calls_leave_pattern_reset
    [of plainDiv "[CSSStyleRule ''div::before'' [decl ''content'' ''x'' []]]"]
  show ?thesis by simp
qed

text \<open>
  Claim C10: every key of the mapping is \<open>::\<close> followed by the text a match captured,
  which is a piece of the rule's selector as written and equals one of the ten names up
  to letter case. So \<open>div::BEFORE\<close> and \<open>div::before\<close> end up under the two keys
  \<open>::BEFORE\<close> and \<open>::before\<close>.
\<close>

theorem keys_keep_letter_case:
  "(\<forall>result name.
      fst (getPseudoElementStyles el rules 0) = Some result \<and> name \<in> fst ` set result \<longrightarrow>
      (\<exists>rule\<in>set rules. \<exists>m\<in>set (allMatches (selectorText rule) 0).
         name = ''::'' @ matchGroup m \<and>
         (\<exists>k. \<exists>p\<in>set pseudoElementNames.
            matchGroup m = take (length p) (drop k (selectorText rule)) \<and>
            map canonicalize (matchGroup m) = map canonicalize p)))
   \<and> fst (getPseudoElementStyles plainDiv
        [CSSStyleRule ''div::BEFORE'' [decl ''content'' ''x'' []],
         CSSStyleRule ''div::before'' [decl ''content'' ''y'' []]] 0)
       = Some [(''::BEFORE'', Some [(''content'', ''x'')]),
               (''::before'', Some [(''content'', ''y'')])]"
proof -
  have general: "\<exists>rule\<in>set rules. \<exists>m\<in>set (allMatches (selectorText rule) 0).
         name = ''::'' @ matchGroup m \<and>
         (\<exists>k. \<exists>p\<in>set pseudoElementNames.
            matchGroup m = take (length p) (drop k (selectorText rule)) \<and>
            map canonicalize (matchGroup m) = map canonicalize p)"
    if "fst (getPseudoElementStyles el rules 0) = Some result" and "name \<in> fst ` set result"
    for result name
  proof -
    from getPseudoElementStyles_names [OF that(1)] that(2) obtain rule where
      rule: "rule \<in> set rules" "name \<in> set (pseudoNamesOf (selectorText rule))"
      by auto
    then obtain m where m: "m \<in> set (allMatches (selectorText rule) 0)" "name = ''::'' @ matchGroup m"
      by (auto simp add: pseudoNamesOf_def)
    from allMatches_member [OF m(1)] obtain j where "firstMatchFrom (selectorText rule) j = Some m"
      by blast
    from firstMatchFrom_group [OF this] rule(1) m show ?thesis by blast
  qed
  have example: "fst (getPseudoElementStyles plainDiv
        [CSSStyleRule ''div::BEFORE'' [decl ''content'' ''x'' []],
         CSSStyleRule ''div::before'' [decl ''content'' ''y'' []]] 0)
       = Some [(''::BEFORE'', Some [(''content'', ''x'')]),
               (''::before'', Some [(''content'', ''y'')])]"
    by code_simp
  from general example show ?thesis by blast
qed

theorem keys_keep_letter_case_witness:
  "fst (getPseudoElementStyles plainDiv [CSSStyleRule ''div:After'' [decl ''content'' ''x'' []]] 0)
     = Some [(''::After'', Some [(''content'', ''x'')])]
   \<and> ''::After'' \<in> fst ` set [(''::After'', Some [(''content'', ''x'')])]
   \<and> (\<exists>rule\<in>set [CSSStyleRule ''div:After'' [decl ''content'' ''x'' []]].
        \<exists>m\<in>set (allMatches (selectorText rule) 0).
         ''::After'' = ''::'' @ matchGroup m \<and>
         (\<exists>k. \<exists>p\<in>set pseudoElementNames.
            matchGroup m = take (length p) (drop k (selectorText rule)) \<and>
            map canonicalize (matchGroup m) = map canonicalize p))"
proof -
  have result: "fst (getPseudoElementStyles plainDiv
        [CSSStyleRule ''div:After'' [decl ''content'' ''x'' []]] 0)
     = Some [(''::After'', Some [(''content'', ''x'')])]"
    by code_simp
  have key: "''::After'' \<in> fst ` set [(''::After'', Some [(''content'', ''x'')])]"
    by simp
  from keys_keep_letter_case
    [of plainDiv "[CSSStyleRule ''div:After'' [decl ''content'' ''x'' []]]"]
    result key
  show ?thesis by blast
qed

end
